theory Spec2Isabelle
  imports Complex_Main "HOL-Library.Char_ord"
begin

chapter \<open>The embedding of the source\<close>

section \<open>Python values used by the ciphers\<close>

text \<open>
  Text is modelled as \<^typ>\<open>string\<close> (a list of 8-bit characters); the model covers
  ASCII text. An exception raised by the Python code is a value of \<open>error\<close>, and a
  function that can raise returns \<open>error + 'a\<close> with \<open>Inl\<close> for the exception.
\<close>

datatype error = ValueError | KeyError | IndexError | RuntimeError | ZeroDivisionError

text \<open>\<open>dict(pairs)\<close>: a later pair with the same key replaces an earlier one.\<close>

definition dict_of :: "('k \<times> 'v) list \<Rightarrow> 'k \<Rightarrow> 'v option" where
  "dict_of ps = map_of (rev ps)"

text \<open>\<open>d[k]\<close> raises \<open>KeyError\<close> on a missing key.\<close>

definition getitem :: "('k \<Rightarrow> 'v option) \<Rightarrow> 'k \<Rightarrow> error + 'v" where
  "getitem d k = (case d k of None \<Rightarrow> Inl KeyError | Some v \<Rightarrow> Inr v)"

text \<open>Evaluating a sequence of results in order: the first exception ends the evaluation.\<close>

fun collect :: "('e + 'a) list \<Rightarrow> 'e + 'a list" where
  "collect [] = Inr []"
| "collect (Inl e # rs) = Inl e"
| "collect (Inr x # rs) = (case collect rs of Inl e \<Rightarrow> Inl e | Inr xs \<Rightarrow> Inr (x # xs))"

text \<open>\<open>xs[a:b]\<close> with Python's treatment of negative and out-of-range bounds.\<close>

definition py_slice :: "'a list \<Rightarrow> int \<Rightarrow> int \<Rightarrow> 'a list" where
  "py_slice xs a b =
     (let n = int (length xs);
          lo = (if a < 0 then max 0 (a + n) else min a n);
          hi = (if b < 0 then max 0 (b + n) else min b n)
      in take (nat (hi - lo)) (drop (nat lo) xs))"

text \<open>\<open>xs[i::k]\<close> for \<open>0 \<le> i\<close> and \<open>1 \<le> k\<close>.\<close>

definition slice_step :: "'a list \<Rightarrow> nat \<Rightarrow> nat \<Rightarrow> 'a list" where
  "slice_step xs i k = map (\<lambda>j. xs ! (i + j * k)) [0..<(length xs + k - 1 - i) div k]"

text \<open>\<open>zip(*cols)\<close>: the rows of the columns, as many as the shortest column has.\<close>

definition zip_star :: "'a list list \<Rightarrow> 'a list list" where
  "zip_star cols =
     (if cols = [] then []
      else map (\<lambda>j. map (\<lambda>col. col ! j) cols) [0..<Min (set (map length cols))])"

text \<open>\<open>s.rstrip(chars)\<close>: drops every trailing character that occurs in \<open>chars\<close>.\<close>

definition rstrip :: "string \<Rightarrow> string \<Rightarrow> string" where
  "rstrip chars s = rev (dropWhile (\<lambda>c. c \<in> set chars) (rev s))"


section \<open>Columnar transposition (class \<open>Column\<close>)\<close>

record Column =
  col_key :: string
  col_pad :: string

definition Column_init :: "string \<Rightarrow> string \<Rightarrow> error + Column" where
  "Column_init key pad =
     (if length key < 1 then Inl ValueError
      else if list_ex (\<lambda>c. count_list key c > 1) key then Inl ValueError
      else if length pad \<noteq> 1 then Inl ValueError
      else Inr \<lparr>col_key = key, col_pad = pad\<rparr>)"

definition Column_encrypt :: "Column \<Rightarrow> string \<Rightarrow> error + string" where
  "Column_encrypt C text =
     (let k = length (col_key C) in
      if k = 0 then Inl ZeroDivisionError
      else
        let text1 = (if length text mod k \<noteq> 0
                     then text @ concat (replicate (k - length text mod k) (col_pad C))
                     else text);
            columns = map (\<lambda>i. slice_step text1 i k) [0..<k];
            d = dict_of (zip (col_key C) columns)
        in map_sum id concat (collect (map (getitem d) (sort (col_key C)))))"

definition Column_decrypt :: "Column \<Rightarrow> string \<Rightarrow> error + string" where
  "Column_decrypt C text =
     (let k = length (col_key C) in
      if k = 0 then Inl ZeroDivisionError
      else if length text mod k \<noteq> 0 then Inl ValueError
      else
        let rows = length text div k;
            columns = map (\<lambda>i. py_slice text (int (i * rows)) (int ((i + 1) * rows))) [0..<k];
            d = dict_of (zip (sort (col_key C)) columns)
        in map_sum id (\<lambda>cols. rstrip (col_pad C) (concat (zip_star cols)))
             (collect (map (getitem d) (col_key C))))"


section \<open>Characters and case\<close>

text \<open>
  \<open>string.ascii_lowercase\<close>, and \<open>str.isupper\<close>, \<open>str.lower\<close> and \<open>str.upper\<close> on one
  ASCII character, given by the two tables of letters.
\<close>

definition ascii_lowercase :: string where
  "ascii_lowercase = ''abcdefghijklmnopqrstuvwxyz''"

definition ascii_uppercase :: string where
  "ascii_uppercase = ''ABCDEFGHIJKLMNOPQRSTUVWXYZ''"

definition py_isupper :: "char \<Rightarrow> bool" where
  "py_isupper c = (c \<in> set ascii_uppercase)"


definition py_lower :: "char \<Rightarrow> char" where
  "py_lower c = (case map_of (zip ascii_uppercase ascii_lowercase) c of None \<Rightarrow> c | Some d \<Rightarrow> d)"

definition py_upper :: "char \<Rightarrow> char" where
  "py_upper c = (case map_of (zip ascii_lowercase ascii_uppercase) c of None \<Rightarrow> c | Some d \<Rightarrow> d)"

definition py_chr :: "int \<Rightarrow> char" where
  "py_chr n = char_of n"

definition py_ord :: "char \<Rightarrow> int" where
  "py_ord c = of_char c"

text \<open>The loop \<open>for c in s: if c not in m: m.append(c)\<close>, one step and the whole.\<close>

fun append_new :: "'a list \<Rightarrow> 'a \<Rightarrow> 'a list" where
  "append_new m c = (if c \<in> set m then m else m @ [c])"

definition dedupe :: "'a list \<Rightarrow> 'a list" where
  "dedupe s = foldl append_new [] s"


section \<open>Monoalphabetic substitution (class \<open>MonoalphabeticSubstitutionCipher\<close>)\<close>

text \<open>
  The base class holds the two dictionaries from characters to characters. Its subclasses
  extend the record, and \<open>encrypt\<close> and \<open>decrypt\<close> are defined once, for all of them.
\<close>

record Mono =
  encrypt_mapping :: "char \<Rightarrow> char option"
  decrypt_mapping :: "char \<Rightarrow> char option"

text \<open>\<open>mapping.get(c.lower(), c)\<close>\<close>

definition mapped :: "(char \<Rightarrow> char option) \<Rightarrow> char \<Rightarrow> char" where
  "mapped m c = (case m (py_lower c) of None \<Rightarrow> c | Some d \<Rightarrow> d)"

text \<open>\<open>(str.lower, str.upper)[c.isupper()](mapping.get(c.lower(), c))\<close>\<close>

definition translate :: "(char \<Rightarrow> char option) \<Rightarrow> char \<Rightarrow> char" where
  "translate m c = (if py_isupper c then py_upper (mapped m c) else py_lower (mapped m c))"

definition Mono_encrypt :: "'a Mono_scheme \<Rightarrow> string \<Rightarrow> string" where
  "Mono_encrypt C text = map (translate (encrypt_mapping C)) text"

definition Mono_decrypt :: "'a Mono_scheme \<Rightarrow> string \<Rightarrow> string" where
  "Mono_decrypt C text = map (translate (decrypt_mapping C)) text"

record Atbash = Mono +
  atbash_alphabet :: string

definition Atbash_init :: "string \<Rightarrow> Atbash" where
  "Atbash_init alphabet =
     (let al = map py_lower alphabet;
          m = dict_of (zip al (rev al))
      in \<lparr>encrypt_mapping = m, decrypt_mapping = m, atbash_alphabet = al\<rparr>)"

record Caesar = Mono +
  caesar_key :: int

definition Caesar_init :: "int \<Rightarrow> Caesar" where
  "Caesar_init key =
     (let shifted = map (\<lambda>c. py_chr (py_ord CHR ''a'' + (py_ord c - py_ord CHR ''a'' + key) mod 26))
                        ascii_lowercase
      in \<lparr>encrypt_mapping = dict_of (zip ascii_lowercase shifted),
          decrypt_mapping = dict_of (zip shifted ascii_lowercase),
          caesar_key = key mod 26\<rparr>)"

definition Rot13_init :: Caesar where
  "Rot13_init = Caesar_init 13"

record KamaSutra = Mono +
  kamasutra_key :: string

definition KamaSutra_init :: "string \<Rightarrow> KamaSutra" where
  "KamaSutra_init key =
     (let m = dict_of (map (\<lambda>i. (key ! i, key ! ((i + length key div 2) mod length key)))
                           [0..<length key])
      in \<lparr>encrypt_mapping = m, decrypt_mapping = m, kamasutra_key = key\<rparr>)"

record Keyword = Mono +
  keyword_key :: string

text \<open>
  The constructor stores \<open>key.lower()\<close> in \<open>self.key\<close> and builds the cipher alphabet from
  the argument \<open>key\<close> as it was passed.
\<close>

definition Keyword_init :: "string \<Rightarrow> Keyword" where
  "Keyword_init key =
     (let m = dedupe (key @ ascii_lowercase)
      in \<lparr>encrypt_mapping = dict_of (zip ascii_lowercase m),
          decrypt_mapping = dict_of (zip m ascii_lowercase),
          keyword_key = map py_lower key\<rparr>)"


section \<open>Characters outside ASCII\<close>

text \<open>
  \<open>str.isascii\<close> on one character of the tables above.
\<close>

definition py_isascii :: "char \<Rightarrow> bool" where
  "py_isascii c = (py_ord c < 128)"

text \<open>
  A Python \<open>str\<close> is a sequence of code points, and \<open>str.isupper\<close>, \<open>str.lower\<close> and
  \<open>str.upper\<close> follow the Unicode Character Database. Its entries are given here for the
  ASCII range and for the three forms of one letter: U+01C4 (452, uppercase), U+01C5 (453,
  titlecase: a cased letter that is neither uppercase nor lowercase) and U+01C6 (454,
  lowercase). \<open>cp_tabled\<close> holds of these code points; the three functions are those of
  Python on them, and say nothing about any other code point.
\<close>

definition cp_tabled :: "nat \<Rightarrow> bool" where
  "cp_tabled n = (n < 128 \<or> n = 452 \<or> n = 453 \<or> n = 454)"

definition cp_isupper :: "nat \<Rightarrow> bool" where
  "cp_isupper n = (65 \<le> n \<and> n \<le> 90 \<or> n = 452)"

definition cp_lower :: "nat \<Rightarrow> nat" where
  "cp_lower n = (if 65 \<le> n \<and> n \<le> 90 then n + 32 else if n = 452 \<or> n = 453 then 454 else n)"

definition cp_upper :: "nat \<Rightarrow> nat" where
  "cp_upper n = (if 97 \<le> n \<and> n \<le> 122 then n - 32 else if n = 453 \<or> n = 454 then 452 else n)"

text \<open>
  The code point of a character, and a dictionary of characters read as a dictionary of code
  points: a code point from 256 on is not among its keys.
\<close>

definition cp_of :: "char \<Rightarrow> nat" where
  "cp_of c = of_char c"

definition cp_dict :: "(char \<Rightarrow> char option) \<Rightarrow> nat \<Rightarrow> nat option" where
  "cp_dict m k = (if k < 256 then map_option cp_of (m (char_of k)) else None)"

text \<open>
  \<open>(str.lower, str.upper)[c.isupper()](mapping.get(c.lower(), c))\<close> on code points, and the
  two methods of the base class on a text of code points. The result is \<open>None\<close> where the
  text or a looked-up value leaves the tabled code points.
\<close>

definition cp_translate :: "(nat \<Rightarrow> nat option) \<Rightarrow> nat \<Rightarrow> nat option" where
  "cp_translate m c =
     (let v = (case m (cp_lower c) of None \<Rightarrow> c | Some d \<Rightarrow> d)
      in if cp_tabled c \<and> cp_tabled v
         then Some (if cp_isupper c then cp_upper v else cp_lower v)
         else None)"

definition Mono_encrypt_cp :: "'a Mono_scheme \<Rightarrow> nat list \<Rightarrow> nat list option" where
  "Mono_encrypt_cp C text = those (map (cp_translate (cp_dict (encrypt_mapping C))) text)"

definition Mono_decrypt_cp :: "'a Mono_scheme \<Rightarrow> nat list \<Rightarrow> nat list option" where
  "Mono_decrypt_cp C text = those (map (cp_translate (cp_dict (decrypt_mapping C))) text)"


section \<open>Floating-point numbers\<close>

text \<open>
  A Python \<open>float\<close> is an IEEE 754 double. A finite double is modelled by the rational
  number it denotes, and an operation on doubles by the exact operation followed by
  rounding to the nearest double, ties to the even significand. \<open>round_double q\<close> is
  that double: with \<open>2\<^sup>e \<le> |q| < 2\<^sup>e\<^sup>+\<^sup>1\<close> it is the multiple of \<open>2\<^sup>e\<^sup>-\<^sup>5\<^sup>2\<close> nearest to
  \<open>q\<close>, a number of 53 significant bits. Overflow and subnormal numbers are not
  modelled: they do not arise for magnitudes between \<open>2\<^sup>-\<^sup>1\<^sup>0\<^sup>2\<^sup>2\<close> and \<open>2\<^sup>1\<^sup>0\<^sup>2\<^sup>3\<close>, which
  covers every count, total and quotient of a text of fewer than \<open>2\<^sup>1\<^sup>0\<^sup>2\<^sup>2\<close> characters.
\<close>

text \<open>The number of binary digits of a natural number.\<close>

fun bits :: "nat \<Rightarrow> nat" where
  "bits n = (if n = 0 then 0 else Suc (bits (n div 2)))"

declare bits.simps [simp del]

text \<open>For \<open>q > 0\<close>: the \<open>e\<close> with \<open>2\<^sup>e \<le> q < 2\<^sup>e\<^sup>+\<^sup>1\<close>.\<close>

definition binade :: "rat \<Rightarrow> int" where
  "binade q =
     (let (a, b) = quotient_of q;
          e = int (bits (nat a)) - int (bits (nat b))
      in if q < 2 powi e then e - 1 else e)"

definition round_half_even :: "rat \<Rightarrow> int" where
  "round_half_even x =
     (let f = \<lfloor>x\<rfloor>; d = x - of_int f
      in if d < 1 / 2 then f else if 1 / 2 < d then f + 1 else if even f then f else f + 1)"

definition round_double :: "rat \<Rightarrow> rat" where
  "round_double q =
     (if q = 0 then 0
      else let e = binade \<bar>q\<bar> - 52 in of_int (round_half_even (q / 2 powi e)) * 2 powi e)"





section \<open>Frequency analysis (\<open>util.frequency_analysis\<close>)\<close>







section \<open>Rail fence (class \<open>RailFence\<close>)\<close>

record RailFence =
  rf_key :: int

definition RailFence_init :: "int \<Rightarrow> error + RailFence" where
  "RailFence_init key = (if key < 1 then Inl ValueError else Inr \<lparr>rf_key = key\<rparr>)"

text \<open>
  \<open>list(range(key - 1)) + list(range(key - 1, 0, -1))\<close>, the list that
  \<open>itertools.cycle\<close> repeats. The position in the cycle is a counter \<open>pos\<close>, and
  \<open>next(indices)\<close> is the element at \<open>pos mod len\<close>.
\<close>

definition cycle_indices :: "int \<Rightarrow> nat list" where
  "cycle_indices key = map nat ([0..key - 2] @ rev [1..key - 1])"

text \<open>The loop \<open>for c in text: rails[next(indices)].append(c)\<close>.\<close>

fun deal :: "nat list \<Rightarrow> nat \<Rightarrow> 'a list \<Rightarrow> 'a list list \<Rightarrow> 'a list list" where
  "deal cyc pos [] rails = rails"
| "deal cyc pos (c # cs) rails =
     (let r = cyc ! (pos mod length cyc) in deal cyc (Suc pos) cs (rails[r := rails ! r @ [c]]))"

definition RailFence_encrypt :: "RailFence \<Rightarrow> string \<Rightarrow> string" where
  "RailFence_encrypt R text =
     (if rf_key R = 1 then text
      else concat (deal (cycle_indices (rf_key R)) 0 text (replicate (nat (rf_key R)) [])))"

text \<open>
  \<open>__periods\<close>: \<open>float(length) / ((self.key - 1) * 2)\<close>, as an exact rational; the
  caller takes \<open>math.ceil\<close> of it.
\<close>

definition periods :: "int \<Rightarrow> int \<Rightarrow> rat" where
  "periods key len = of_int len / of_int ((key - 1) * 2)"

text \<open>
  \<open>''.join(next(gens[next(indices)]) for _ in range(len(text)))\<close>: \<open>m\<close> characters are
  drawn from the rows, each row a generator that is consumed from its front. \<open>next\<close> on an
  exhausted row raises \<open>StopIteration\<close> inside the generator expression, which Python
  (PEP 479) turns into a \<open>RuntimeError\<close>.
\<close>

fun draw :: "nat list \<Rightarrow> nat \<Rightarrow> nat \<Rightarrow> 'a list list \<Rightarrow> error + 'a list" where
  "draw cyc pos 0 gens = Inr []"
| "draw cyc pos (Suc m) gens =
     (let r = cyc ! (pos mod length cyc) in
      case gens ! r of
        [] \<Rightarrow> Inl RuntimeError
      | c # cs \<Rightarrow> (case draw cyc (Suc pos) m (gens[r := cs]) of
                    Inl e \<Rightarrow> Inl e
                  | Inr out \<Rightarrow> Inr (c # out)))"

definition RailFence_decrypt :: "RailFence \<Rightarrow> string \<Rightarrow> error + string" where
  "RailFence_decrypt R text =
     (let key = rf_key R; n = int (length text) in
      if key = 1 then Inr text
      else
        let rowend0 = \<lceil>periods key n\<rceil>;
            (rows, rowstart) =
               foldl (\<lambda>(rows, rowstart) i.
                        let rowend = rowstart + \<lceil>periods key (n - i)\<rceil>
                                       + \<lceil>periods key (n - i - (key - i - 1) * 2)\<rceil>
                        in (rows @ [py_slice text rowstart rowend], rowend))
                     ([py_slice text 0 rowend0], rowend0) [1..key - 2];
            rows = rows @ [py_slice text rowstart n]
        in draw (cycle_indices key) 0 (length text) rows)"

text \<open>
  For the proofs: the characters of a text that the zig-zag sends to rail \<open>r\<close>, when the
  cycle stands at position \<open>pos\<close>.
\<close>

fun rail :: "nat list \<Rightarrow> nat \<Rightarrow> nat \<Rightarrow> 'a list \<Rightarrow> 'a list" where
  "rail cyc pos r [] = []"
| "rail cyc pos r (c # cs) =
     (if cyc ! (pos mod length cyc) = r then c # rail cyc (Suc pos) r cs
      else rail cyc (Suc pos) r cs)"


section \<open>The affine cipher (class \<open>Affine\<close>)\<close>

text \<open>\<open>xs.index(c)\<close> raises \<open>ValueError\<close> when \<open>c\<close> does not occur.\<close>

definition py_index :: "'a list \<Rightarrow> 'a \<Rightarrow> error + nat" where
  "py_index xs c =
     (if c \<in> set xs then Inr (length (takeWhile (\<lambda>x. x \<noteq> c) xs)) else Inl ValueError)"







section \<open>Sequencing of results\<close>

text \<open>A statement that may raise, followed by the rest of the computation.\<close>

fun sum_bind :: "'e + 'a \<Rightarrow> ('a \<Rightarrow> 'e + 'b) \<Rightarrow> 'e + 'b" where
  "sum_bind (Inl e) f = Inl e"
| "sum_bind (Inr x) f = f x"

text \<open>
  A generator is modelled by what it yields before it ends, and the exception that ends
  it, if any. The consumer handles the yielded items in order and then meets the exception.
\<close>

type_synonym 'a generated = "'a list \<times> error option"

fun yield :: "'a \<Rightarrow> 'a generated \<Rightarrow> 'a generated" where
  "yield x (xs, e) = (x # xs, e)"

text \<open>\<open>v in s\<close> for two strings: \<open>v\<close> occurs as a substring of \<open>s\<close>.\<close>

definition py_in_str :: "string \<Rightarrow> string \<Rightarrow> bool" where
  "py_in_str v s = list_ex (\<lambda>i. take (length v) (drop i s) = v) [0..<Suc (length s)]"

text \<open>
  A dictionary whose items are read (\<open>.items()\<close>, \<open>.values()\<close>): the association list of
  its items in insertion order, one entry per key. \<open>upsert\<close> is \<open>d[k] = v\<close>.
\<close>

fun upsert :: "('k \<times> 'v) list \<Rightarrow> 'k \<Rightarrow> 'v \<Rightarrow> ('k \<times> 'v) list" where
  "upsert [] k v = [(k, v)]"
| "upsert ((k', v') # d) k v = (if k' = k then (k, v) # d else (k', v') # upsert d k v)"

definition py_dict :: "('k \<times> 'v) list \<Rightarrow> ('k \<times> 'v) list" where
  "py_dict ps = foldl (\<lambda>d kv. upsert d (fst kv) (snd kv)) [] ps"


section \<open>The coordinate square (class \<open>util.Polybius\<close>)\<close>

text \<open>
  Modelled from the spec: the class \<open>util.Polybius\<close> is used by the ciphers and its source
  is not part of the files at hand. The spec (4.1) says: the square is built from a seed
  string and a base alphabet; the seed characters, deduplicated and in order, fill the grid
  first, followed by the remaining alphabet characters in order; construction fails when
  the count of unique characters is not a perfect square; lookup goes from a character to
  its coordinate tuple and from a coordinate tuple to its character, and the two are
  inverse to each other. The model covers the two-dimensional square, filled row by row
  (as the diagrams in the docstring of \<open>FourSquare\<close> show), with coordinates
  \<open>(row, column)\<close> counted from 0. A lookup of anything that is not in the square raises
  \<open>KeyError\<close>.
\<close>

record Polybius =
  pb_contents :: string
  pb_side :: nat

definition Polybius_init :: "string \<Rightarrow> string \<Rightarrow> error + Polybius" where
  "Polybius_init seed alphabet =
     (let cs = dedupe (seed @ alphabet) in
      case find (\<lambda>L. L * L = length cs) [0..<Suc (length cs)] of
        None \<Rightarrow> Inl ValueError
      | Some L \<Rightarrow> Inr \<lparr>pb_contents = cs, pb_side = L\<rparr>)"

text \<open>\<open>square[s]\<close> for a string \<open>s\<close>: the coordinates of a character of the square.\<close>

definition Polybius_coords :: "Polybius \<Rightarrow> string \<Rightarrow> error + int \<times> int" where
  "Polybius_coords P s =
     (case s of
        [c] \<Rightarrow> (case py_index (pb_contents P) c of
                  Inl e \<Rightarrow> Inl KeyError
                | Inr i \<Rightarrow> Inr (int (i div pb_side P), int (i mod pb_side P)))
      | _ \<Rightarrow> Inl KeyError)"

text \<open>\<open>square[(r, c)]\<close>: the character at a coordinate tuple.\<close>

definition Polybius_char :: "Polybius \<Rightarrow> int \<times> int \<Rightarrow> error + char" where
  "Polybius_char P rc =
     (let L = int (pb_side P); r = fst rc; c = snd rc in
      if 0 \<le> r \<and> r < L \<and> 0 \<le> c \<and> c < L then Inr (pb_contents P ! nat (r * L + c))
      else Inl KeyError)"


section \<open>The two-square cipher (class \<open>TwoSquare\<close>)\<close>

record TwoSquare =
  ts_keys :: "Polybius \<times> Polybius"
  ts_horizontal :: bool

definition TwoSquare_init :: "Polybius \<times> Polybius \<Rightarrow> bool \<Rightarrow> error + TwoSquare" where
  "TwoSquare_init keys horizontal =
     (if set (pb_contents (fst keys)) \<noteq> set (pb_contents (snd keys)) then Inl ValueError
      else Inr \<lparr>ts_keys = keys, ts_horizontal = horizontal\<rparr>)"

text \<open>The body of the loop \<open>for a, b in zip(text, text)\<close>: the two characters appended.\<close>

definition ts_digraph :: "TwoSquare \<Rightarrow> char \<Rightarrow> char \<Rightarrow> error + string" where
  "ts_digraph C a b =
     sum_bind (Polybius_coords (fst (ts_keys C)) [a]) (\<lambda>(r1, c1).
     sum_bind (Polybius_coords (snd (ts_keys C)) [b]) (\<lambda>(r2, c2).
       if ts_horizontal C then
         (if r1 = r2 then Inr [a, b]
          else sum_bind (Polybius_char (fst (ts_keys C)) (r2, c1)) (\<lambda>x.
               sum_bind (Polybius_char (snd (ts_keys C)) (r1, c2)) (\<lambda>y. Inr [x, y])))
       else
         (if c1 = c2 then Inr [a, b]
          else sum_bind (Polybius_char (fst (ts_keys C)) (r1, c2)) (\<lambda>x.
               sum_bind (Polybius_char (snd (ts_keys C)) (r2, c1)) (\<lambda>y. Inr [x, y])))))"

fun ts_pairs :: "TwoSquare \<Rightarrow> string \<Rightarrow> error + string" where
  "ts_pairs C (a # b # rest) =
     sum_bind (ts_digraph C a b) (\<lambda>out.
     sum_bind (ts_pairs C rest) (\<lambda>outs. Inr (out @ outs)))"
| "ts_pairs C rest = Inr []"

definition TwoSquare_encrypt :: "TwoSquare \<Rightarrow> string \<Rightarrow> error + string" where
  "TwoSquare_encrypt C text =
     (let lastchar = (if length text mod 2 = 1 then [last text] else [])
      in sum_bind (ts_pairs C text) (\<lambda>cipher. Inr (cipher @ lastchar)))"

definition TwoSquare_decrypt :: "TwoSquare \<Rightarrow> string \<Rightarrow> error + string" where
  "TwoSquare_decrypt C text = TwoSquare_encrypt C text"


section \<open>The Playfair cipher (class \<open>Playfair\<close>)\<close>

text \<open>
  The constructor checks that \<open>breaker\<close> and \<open>padding\<close> are strings of one character of
  the alphabet; the record holds that character.
\<close>

record Playfair =
  pf_omitted :: "(string \<times> string) list"
  pf_alphabet :: string
  pf_breaker :: char
  pf_padding :: char
  pf_key :: string
  pf_polybius :: Polybius

definition Playfair_init ::
    "string \<Rightarrow> string \<Rightarrow> string \<Rightarrow> (string \<times> string) list \<Rightarrow> error + Playfair" where
  "Playfair_init key breaker padding omitted =
     (let om = py_dict (map (\<lambda>kv. (map py_lower (fst kv), map py_lower (snd kv))) omitted);
          alphabet = filter (\<lambda>c. [c] \<notin> set (map fst om)) ascii_lowercase
      in
      if length alphabet \<noteq> 25 \<or>
         list_ex (\<lambda>c. length c > 1 \<or> \<not> py_in_str c alphabet) (map snd om)
      then Inl ValueError
      else if length breaker \<noteq> 1 \<or> \<not> py_in_str breaker alphabet then Inl ValueError
      else if length padding \<noteq> 1 \<or> \<not> py_in_str padding alphabet then Inl ValueError
      else
        sum_bind (Polybius_init (filter (\<lambda>c. c \<in> set alphabet) (map py_lower key)) alphabet)
          (\<lambda>square. Inr \<lparr>pf_omitted = om, pf_alphabet = alphabet, pf_breaker = hd breaker,
                          pf_padding = hd padding, pf_key = key, pf_polybius = square\<rparr>))"

text \<open>\<open>self.omitted.get(c, c)\<close> for a character \<open>c\<close> of the text.\<close>

definition omit :: "Playfair \<Rightarrow> char \<Rightarrow> string" where
  "omit P c = (case map_of (pf_omitted P) [c] of None \<Rightarrow> [c] | Some v \<Rightarrow> v)"

text \<open>
  \<open>text.replace(breaker + breaker, breaker)\<close>, the test \<open>breaker + breaker in text\<close>, and
  the loop \<open>while breaker + breaker in text: text = text.replace(\<dots>)\<close>.
\<close>

fun replace2 :: "char \<Rightarrow> string \<Rightarrow> string" where
  "replace2 b (x # y # rest) =
     (if x = b \<and> y = b then b # replace2 b rest else x # replace2 b (y # rest))"
| "replace2 b rest = rest"

fun has2 :: "char \<Rightarrow> string \<Rightarrow> bool" where
  "has2 b (x # y # rest) = ((x = b \<and> y = b) \<or> has2 b (y # rest))"
| "has2 b rest = False"

lemma replace2_shorter: "has2 b s \<Longrightarrow> length (replace2 b s) < length s"
proof (induction b s rule: replace2.induct)
  case (1 b x y rest)
  have "length (replace2 b t) \<le> length t" for t
    by (induction b t rule: replace2.induct) auto
  with 1 show ?case by (auto simp: le_imp_less_Suc)
qed simp_all

function squeeze :: "char \<Rightarrow> string \<Rightarrow> string" where
  "squeeze b s = (if has2 b s then squeeze b (replace2 b s) else s)"
  by pat_completeness auto
termination
  by (relation "measure (\<lambda>(b, s). length s)") (auto simp: replace2_shorter)

declare squeeze.simps [simp del]

text \<open>
  \<open>__plain_pairs\<close>: the letters that are paired, and the generator over them. \<open>plain_zip\<close>
  is the loop \<open>for a, b in izip(plain, plain)\<close>, which ends when fewer than two letters are
  left; \<open>plain_run\<close> is the code after \<open>yield a, self.breaker\<close>, which calls
  \<open>next(plain)\<close>: on an exhausted iterator this raises \<open>StopIteration\<close> inside the
  generator, which Python (PEP 479, the behaviour of Python 3.7 and later) turns into a
  \<open>RuntimeError\<close>.
\<close>

definition plain_letters :: "Playfair \<Rightarrow> string \<Rightarrow> string" where
  "plain_letters P text =
     filter (\<lambda>c. c \<in> set (pf_alphabet P))
       (map py_lower (squeeze (pf_breaker P) (concat (map (omit P) text)) @ [pf_padding P]))"

fun plain_zip :: "char \<Rightarrow> string \<Rightarrow> (string \<times> string) generated"
  and plain_run :: "char \<Rightarrow> char \<Rightarrow> string \<Rightarrow> (string \<times> string) generated" where
  "plain_zip br (a # b # rest) =
     (if a = b then yield ([a], [br]) (plain_run br b rest)
      else yield ([a], [b]) (plain_zip br rest))"
| "plain_zip br [a] = ([], None)"
| "plain_zip br [] = ([], None)"
| "plain_run br b [] = ([], Some RuntimeError)"
| "plain_run br b (c # rest) =
     (if c = b then yield ([b], [br]) (plain_run br b rest)
      else yield ([b], [c]) (plain_zip br rest))"

definition Playfair_plain_pairs :: "Playfair \<Rightarrow> string \<Rightarrow> (string \<times> string) generated" where
  "Playfair_plain_pairs P text = plain_zip (pf_breaker P) (plain_letters P text)"

text \<open>\<open>__cipher_pairs\<close>\<close>

fun cipher_zip :: "string list \<Rightarrow> (string \<times> string) generated" where
  "cipher_zip (a # b # rest) =
     (if a = b then ([], Some ValueError) else yield (a, b) (cipher_zip rest))"
| "cipher_zip rest = ([], None)"

definition Playfair_cipher_pairs :: "Playfair \<Rightarrow> string \<Rightarrow> (string \<times> string) generated" where
  "Playfair_cipher_pairs P text =
     (if length text mod 2 \<noteq> 0 then ([], Some ValueError)
      else cipher_zip (map (omit P) text))"

text \<open>\<open>__polyb\<close>\<close>

definition Playfair_polyb :: "Playfair \<Rightarrow> string \<times> string \<Rightarrow> bool \<Rightarrow> error + string" where
  "Playfair_polyb P digraph decrypt =
     sum_bind (Polybius_coords (pf_polybius P) (fst digraph)) (\<lambda>(r1, c1).
     sum_bind (Polybius_coords (pf_polybius P) (snd digraph)) (\<lambda>(r2, c2).
       if r1 \<noteq> r2 \<and> c1 \<noteq> c2 then
         sum_bind (Polybius_char (pf_polybius P) (r1, c2)) (\<lambda>x.
         sum_bind (Polybius_char (pf_polybius P) (r2, c1)) (\<lambda>y. Inr [x, y]))
       else
         let (r1, c1, r2, c2) =
               (if r1 = r2 then
                  (if decrypt then (r1, (c1 - 1) mod 5, r2, (c2 - 1) mod 5)
                   else (r1, (c1 + 1) mod 5, r2, (c2 + 1) mod 5))
                else if c1 = c2 then
                  (if decrypt then ((r1 - 1) mod 5, c1, (r2 - 1) mod 5, c2)
                   else ((r1 + 1) mod 5, c1, (r2 + 1) mod 5, c2))
                else (r1, c1, r2, c2))
         in sum_bind (Polybius_char (pf_polybius P) (r1, c1)) (\<lambda>x.
            sum_bind (Polybius_char (pf_polybius P) (r2, c2)) (\<lambda>y. Inr [x, y]))))"

text \<open>
  \<open>''.join(self.__polyb(b) for b in pairs)\<close>: every yielded digraph is translated in
  order, then the exception that ended the generator, if any, is raised.
\<close>

definition join_polyb :: "Playfair \<Rightarrow> bool \<Rightarrow> (string \<times> string) generated \<Rightarrow> error + string" where
  "join_polyb P decrypt g =
     sum_bind (collect (map (\<lambda>d. Playfair_polyb P d decrypt) (fst g))) (\<lambda>outs.
       case snd g of Some e \<Rightarrow> Inl e | None \<Rightarrow> Inr (concat outs))"

definition Playfair_encrypt :: "Playfair \<Rightarrow> string \<Rightarrow> error + string" where
  "Playfair_encrypt P text = join_polyb P False (Playfair_plain_pairs P text)"

definition Playfair_decrypt :: "Playfair \<Rightarrow> string \<Rightarrow> error + string" where
  "Playfair_decrypt P text = join_polyb P True (Playfair_cipher_pairs P text)"


text \<open>
  For the statement of the Playfair pairing: the letters that \<open>__plain_pairs\<close> pairs,
  before the padding is appended.
\<close>

definition plain_body :: "Playfair \<Rightarrow> string \<Rightarrow> string" where
  "plain_body P text =
     filter (\<lambda>c. c \<in> set (pf_alphabet P))
       (map py_lower (squeeze (pf_breaker P) (concat (map (omit P) text))))"

text \<open>
  The digraphs as the spec describes them: pair up the letters; if both letters of a pair
  are identical, insert the breaker between them and re-pair; complete an incomplete final
  digraph with the padding letter.
\<close>

fun spec_digraphs :: "char \<Rightarrow> char \<Rightarrow> string \<Rightarrow> (char \<times> char) list" where
  "spec_digraphs br pad [] = []"
| "spec_digraphs br pad [a] = [(a, pad)]"
| "spec_digraphs br pad (a # b # rest) =
     (if a = b then (a, br) # spec_digraphs br pad (b # rest)
      else (a, b) # spec_digraphs br pad rest)"

definition as_strings :: "(char \<times> char) list \<Rightarrow> (string \<times> string) list" where
  "as_strings ds = map (\<lambda>d. ([fst d], [snd d])) ds"


chapter \<open>Verification\<close>

section \<open>Columnar transposition: the worked example\<close>

text \<open>
  Claim C3. \<open>Column("CIPHER", pad='x')\<close> is constructed without error, encrypts
  \<open>"thisisanexample"\<close> to exactly \<open>"tapiaxsxxhnlieesmx"\<close>, and decrypts that ciphertext
  to exactly \<open>"thisisanexample"\<close>, the three padding characters stripped.
\<close>

theorem Column_CIPHER_example:
  "Column_init ''CIPHER'' ''x'' = Inr \<lparr>col_key = ''CIPHER'', col_pad = ''x''\<rparr> \<and>
   Column_encrypt \<lparr>col_key = ''CIPHER'', col_pad = ''x''\<rparr> ''thisisanexample''
     = Inr ''tapiaxsxxhnlieesmx'' \<and>
   Column_decrypt \<lparr>col_key = ''CIPHER'', col_pad = ''x''\<rparr> ''tapiaxsxxhnlieesmx''
     = Inr ''thisisanexample''"
proof (intro conjI)
  show "Column_init ''CIPHER'' ''x'' = Inr \<lparr>col_key = ''CIPHER'', col_pad = ''x''\<rparr>"
    by (simp add: Column_init_def)
  show "Column_encrypt \<lparr>col_key = ''CIPHER'', col_pad = ''x''\<rparr> ''thisisanexample''
     = Inr ''tapiaxsxxhnlieesmx''"
    by code_simp
  show "Column_decrypt \<lparr>col_key = ''CIPHER'', col_pad = ''x''\<rparr> ''tapiaxsxxhnlieesmx''
     = Inr ''thisisanexample''"
    by code_simp
qed

section \<open>Monoalphabetic substitution: case and passthrough\<close>

lemma not_isupper_lower: "\<not> py_isupper (py_lower c)"
proof -
  have "\<forall>c::char. \<not> py_isupper (py_lower c)" by code_simp
  then show ?thesis by blast
qed


lemma lower_id: "\<not> py_isupper c \<Longrightarrow> py_lower c = c"
proof -
  have "\<forall>c::char. \<not> py_isupper c \<longrightarrow> py_lower c = c" by code_simp
  then show "\<not> py_isupper c \<Longrightarrow> py_lower c = c" by blast
qed











subsection \<open>A titlecase letter\<close>

text \<open>
  On ASCII text, and with a mapping whose values are ASCII characters, the methods on code
  points are the methods on characters.
\<close>

lemma cp_of_ascii:
  "py_isascii c \<Longrightarrow> cp_tabled (cp_of c)"
  "py_isascii c \<Longrightarrow> cp_isupper (cp_of c) = py_isupper c"
  "py_isascii c \<Longrightarrow> cp_lower (cp_of c) = cp_of (py_lower c)"
  "py_isascii c \<Longrightarrow> cp_upper (cp_of c) = cp_of (py_upper c)"
  "py_isascii c \<Longrightarrow> py_isascii (py_lower c)"
proof -
  have "\<forall>c::char. py_isascii c \<longrightarrow> cp_tabled (cp_of c) \<and> cp_isupper (cp_of c) = py_isupper c
          \<and> cp_lower (cp_of c) = cp_of (py_lower c) \<and> cp_upper (cp_of c) = cp_of (py_upper c)
          \<and> py_isascii (py_lower c)"
    by code_simp
  then show "py_isascii c \<Longrightarrow> cp_tabled (cp_of c)"
    "py_isascii c \<Longrightarrow> cp_isupper (cp_of c) = py_isupper c"
    "py_isascii c \<Longrightarrow> cp_lower (cp_of c) = cp_of (py_lower c)"
    "py_isascii c \<Longrightarrow> cp_upper (cp_of c) = cp_of (py_upper c)"
    "py_isascii c \<Longrightarrow> py_isascii (py_lower c)"
    by blast+
qed

lemma cp_dict_of: "cp_dict m (cp_of k) = map_option cp_of (m k)"
  by (simp add: cp_dict_def cp_of_def)

lemma cp_translate_ascii:
  assumes "py_isascii c" "\<And>d. m (py_lower c) = Some d \<Longrightarrow> py_isascii d"
  shows "cp_translate (cp_dict m) (cp_of c) = Some (cp_of (translate m c))"
proof (cases "m (py_lower c)")
  case None
  then show ?thesis
    using assms(1)
    by (simp add: cp_translate_def cp_of_ascii cp_dict_of translate_def mapped_def)
next
  case (Some d)
  then have "py_isascii d" by (rule assms(2))
  then show ?thesis
    using assms(1) Some
    by (simp add: cp_translate_def cp_of_ascii cp_dict_of translate_def mapped_def)
qed

lemma those_map_Some:
  "(\<And>x. x \<in> set xs \<Longrightarrow> f x = Some (g x)) \<Longrightarrow> those (map f xs) = Some (map g xs)"
  by (induction xs) simp_all

lemma Mono_cp_ascii:
  fixes C :: "'a Mono_scheme"
  assumes "\<And>c. c \<in> set text \<Longrightarrow> py_isascii c"
    and "\<And>k d. encrypt_mapping C k = Some d \<Longrightarrow> py_isascii d"
    and "\<And>k d. decrypt_mapping C k = Some d \<Longrightarrow> py_isascii d"
  shows "Mono_encrypt_cp C (map cp_of text) = Some (map cp_of (Mono_encrypt C text))"
    and "Mono_decrypt_cp C (map cp_of text) = Some (map cp_of (Mono_decrypt C text))"
proof -
  have "those (map (cp_translate (cp_dict (encrypt_mapping C)) \<circ> cp_of) text)
          = Some (map (cp_of \<circ> translate (encrypt_mapping C)) text)"
    by (rule those_map_Some) (simp add: cp_translate_ascii assms(1,2))
  then show "Mono_encrypt_cp C (map cp_of text) = Some (map cp_of (Mono_encrypt C text))"
    by (simp add: Mono_encrypt_cp_def Mono_encrypt_def)
  have "those (map (cp_translate (cp_dict (decrypt_mapping C)) \<circ> cp_of) text)
          = Some (map (cp_of \<circ> translate (decrypt_mapping C)) text)"
    by (rule those_map_Some) (simp add: cp_translate_ascii assms(1,3))
  then show "Mono_decrypt_cp C (map cp_of text) = Some (map cp_of (Mono_decrypt C text))"
    by (simp add: Mono_decrypt_cp_def Mono_decrypt_def)
qed



section \<open>The keyword cipher with the docstring's key\<close>

text \<open>
  Claim C1 (refuted by the code at the key of the class's own docstring). With the key
  \<open>"SECRET"\<close> the constructor builds the cipher alphabet from the key as passed, in
  uppercase, so the 26 letters are mapped to \<open>S E C R T a b c \<dots> u\<close>. The plaintext
  \<open>"a"\<close> is encrypted to \<open>"s"\<close>, and \<open>"s"\<close> is decrypted to \<open>"x"\<close>: decryption does
  not invert encryption on lowercase text.
\<close>

theorem Keyword_SECRET_roundtrip_fails:
  "Mono_encrypt (Keyword_init ''SECRET'') ''a'' = ''s'' \<and>
   Mono_decrypt (Keyword_init ''SECRET'') ''s'' = ''x'' \<and>
   Mono_decrypt (Keyword_init ''SECRET'') (Mono_encrypt (Keyword_init ''SECRET'') ''a'') \<noteq> ''a''"
  by code_simp


section \<open>Reciprocal monoalphabetic ciphers\<close>

lemma dict_of_zip_nth:
  assumes "distinct ks" "length ks = length vs" "i < length ks"
  shows "dict_of (zip ks vs) (ks ! i) = Some (vs ! i)"
proof -
  let ?n = "length ks"
  have "dict_of (zip ks vs) = map_of (zip (rev ks) (rev vs))"
    using assms(2) by (simp add: dict_of_def zip_rev)
  moreover have "ks ! i = rev ks ! (?n - 1 - i)" "vs ! i = rev vs ! (?n - 1 - i)"
    using assms by (simp_all add: rev_nth)
  moreover have "map_of (zip (rev ks) (rev vs)) (rev ks ! (?n - 1 - i)) = Some (rev vs ! (?n - 1 - i))"
    using assms by (intro map_of_zip_nth) simp_all
  ultimately show ?thesis by simp
qed

lemma translate_invol:
  assumes "\<not> py_isupper c" "m c = Some d" "\<not> py_isupper d" "m d = Some c"
  shows "translate m c = d" "translate m (translate m c) = c"
proof -
  show 1: "translate m c = d"
    using assms by (simp add: translate_def mapped_def lower_id)
  show "translate m (translate m c) = c"
    unfolding 1 using assms by (simp add: translate_def mapped_def lower_id)
qed

lemma Atbash_twice:
  assumes "distinct (map py_lower alphabet)" "set T \<subseteq> set (map py_lower alphabet)"
  shows "Mono_encrypt (Atbash_init alphabet) (Mono_encrypt (Atbash_init alphabet) T) = T"
proof -
  define al where "al = map py_lower alphabet"
  define m where "m = dict_of (zip al (rev al))"
  have enc: "encrypt_mapping (Atbash_init alphabet) = m"
    by (simp add: Atbash_init_def Let_def al_def m_def)
  have nu: "\<not> py_isupper c" if "c \<in> set al" for c
    using that not_isupper_lower by (auto simp: al_def)
  have step: "translate m (translate m c) = c" if "c \<in> set al" for c
  proof -
    from that obtain i where i: "i < length al" "c = al ! i"
      by (auto simp: in_set_conv_nth)
    let ?j = "length al - 1 - i"
    have j: "?j < length al" using i by simp
    have d: "distinct al" using assms(1) by (simp add: al_def)
    have 1: "m c = Some (al ! ?j)"
      unfolding m_def i(2) using dict_of_zip_nth [OF d, of "rev al" i] i(1)
      by (simp add: rev_nth)
    have 2: "m (al ! ?j) = Some c"
      unfolding m_def i(2) using dict_of_zip_nth [OF d, of "rev al" ?j] i(1) j
      by (simp add: rev_nth)
    show ?thesis
      by (rule translate_invol(2) [OF nu [OF that] 1 nu 2]) (use j in simp)
  qed
  have "map (translate m) (map (translate m) T) = T"
    using assms(2) step by (simp add: map_idI al_def subset_iff)
  then show ?thesis by (simp add: Mono_encrypt_def enc)
qed

lemma KamaSutra_mapping:
  assumes "distinct key" "i < length key"
  shows "encrypt_mapping (KamaSutra_init key) (key ! i)
           = Some (key ! ((i + length key div 2) mod length key))"
proof -
  let ?n = "length key"
  let ?g = "\<lambda>i. key ! ((i + ?n div 2) mod ?n)"
  have "map (\<lambda>i. (key ! i, ?g i)) [0..<?n] = zip key (map ?g [0..<?n])"
    by (rule nth_equalityI) simp_all
  then have "encrypt_mapping (KamaSutra_init key) = dict_of (zip key (map ?g [0..<?n]))"
    by (simp add: KamaSutra_init_def Let_def)
  then show ?thesis
    using dict_of_zip_nth [OF assms(1), of "map ?g [0..<?n]" i] assms(2) by simp
qed

lemma KamaSutra_twice_gen:
  assumes "distinct key" "even (length key)" "list_all (\<lambda>c. \<not> py_isupper c) key"
    and "set T \<subseteq> set key"
  shows "Mono_encrypt (KamaSutra_init key) (Mono_encrypt (KamaSutra_init key) T) = T"
proof -
  let ?n = "length key"
  let ?m = "encrypt_mapping (KamaSutra_init key)"
  have step: "translate ?m (translate ?m c) = c" if "c \<in> set key" for c
  proof -
    from that obtain i where i: "i < ?n" "c = key ! i"
      by (auto simp: in_set_conv_nth)
    let ?j = "(i + ?n div 2) mod ?n"
    have j: "?j < ?n" using i(1) by (intro mod_less_divisor) auto
    have rt: "(?j + ?n div 2) mod ?n = i"
    proof -
      have "(?j + ?n div 2) mod ?n = (i + (?n div 2 + ?n div 2)) mod ?n"
        by (simp add: mod_add_left_eq add.assoc)
      also have "?n div 2 + ?n div 2 = ?n" using assms(2) by auto
      finally show ?thesis using i(1) by simp
    qed
    have nu: "\<not> py_isupper (key ! k)" if "k < ?n" for k
      using assms(3) that by (simp add: list_all_length)
    have 1: "?m c = Some (key ! ?j)"
      unfolding i(2) by (rule KamaSutra_mapping [OF assms(1) i(1)])
    have 2: "?m (key ! ?j) = Some c"
      unfolding i(2) using KamaSutra_mapping [OF assms(1) j] rt by simp
    show ?thesis
      by (rule translate_invol(2) [OF _ 1 nu [OF j] 2]) (simp add: i nu)
  qed
  have "map (translate ?m) (map (translate ?m) T) = T"
    using assms(4) step by (simp add: map_idI subset_iff)
  then show ?thesis by (simp add: Mono_encrypt_def)
qed

lemma KamaSutra_twice:
  assumes "distinct key" "set key = set ascii_lowercase" "set T \<subseteq> set ascii_lowercase"
  shows "Mono_encrypt (KamaSutra_init key) (Mono_encrypt (KamaSutra_init key) T) = T"
proof -
  have "distinct ascii_lowercase" "length ascii_lowercase = 26"
    by (simp_all add: ascii_lowercase_def)
  then have "card (set ascii_lowercase) = 26" by (simp add: distinct_card)
  then have len: "length key = 26"
    using assms(1,2) distinct_card [of key] by simp
  have "\<forall>c\<in>set ascii_lowercase. \<not> py_isupper c" by code_simp
  then have "list_all (\<lambda>c. \<not> py_isupper c) key"
    using assms(2) by (simp add: list_all_iff)
  then show ?thesis
    using KamaSutra_twice_gen [OF assms(1)] len assms(2,3) by simp
qed

lemma Rot13_table:
  "zip ascii_lowercase
     (map (\<lambda>c. py_chr (py_ord CHR ''a'' + (py_ord c - py_ord CHR ''a'' + 13) mod 26)) ascii_lowercase)
   = map (\<lambda>i. (ascii_lowercase ! i,
                ascii_lowercase ! ((i + length ascii_lowercase div 2) mod length ascii_lowercase)))
       [0..<length ascii_lowercase]"
  by code_simp

lemma Rot13_mapping: "encrypt_mapping Rot13_init = encrypt_mapping (KamaSutra_init ascii_lowercase)"
  by (simp add: Rot13_init_def Caesar_init_def KamaSutra_init_def Let_def Rot13_table)

lemma Rot13_twice:
  assumes "set T \<subseteq> set ascii_lowercase"
  shows "Mono_encrypt Rot13_init (Mono_encrypt Rot13_init T) = T"
proof -
  have "distinct ascii_lowercase" by (simp add: ascii_lowercase_def)
  from KamaSutra_twice [OF this refl assms] show ?thesis
    by (simp add: Mono_encrypt_def Rot13_mapping)
qed


section \<open>Rail fence with three rails\<close>

lemma deal_rail:
  assumes "cyc \<noteq> []" "set cyc \<subseteq> {..<length rails}"
  shows "deal cyc pos text rails = map (\<lambda>r. rails ! r @ rail cyc pos r text) [0..<length rails]"
  using assms(2)
proof (induction "text" arbitrary: pos rails)
  case Nil
  then show ?case by (simp add: map_nth)
next
  case (Cons c cs)
  let ?r = "cyc ! (pos mod length cyc)"
  let ?rails = "rails[?r := rails ! ?r @ [c]]"
  have r: "?r < length rails"
  proof -
    have "pos mod length cyc < length cyc" using assms(1) by simp
    then have "?r \<in> set cyc" by (rule nth_mem)
    with Cons.prems show ?thesis by auto
  qed
  have "deal cyc (Suc pos) cs ?rails
          = map (\<lambda>r. ?rails ! r @ rail cyc (Suc pos) r cs) [0..<length ?rails]"
    by (rule Cons.IH) (use Cons.prems in simp)
  also have "\<dots> = map (\<lambda>r. rails ! r @ rail cyc pos r (c # cs)) [0..<length rails]"
    using r by (auto simp: nth_list_update)
  finally show ?case by (simp add: Let_def)
qed

lemma draw_rail:
  assumes "cyc \<noteq> []" "set cyc \<subseteq> {..<k}"
  shows "draw cyc pos (length text) (map (\<lambda>r. rail cyc pos r text) [0..<k]) = Inr text"
proof (induction "text" arbitrary: pos)
  case Nil
  then show ?case by simp
next
  case (Cons c cs)
  let ?r = "cyc ! (pos mod length cyc)"
  let ?gens = "map (\<lambda>r. rail cyc pos r (c # cs)) [0..<k]"
  have r: "?r < k"
  proof -
    have "pos mod length cyc < length cyc" using assms(1) by simp
    then have "?r \<in> set cyc" by (rule nth_mem)
    with assms(2) show ?thesis by auto
  qed
  have hd: "?gens ! ?r = c # rail cyc (Suc pos) ?r cs"
    using r by simp
  have tl: "?gens[?r := rail cyc (Suc pos) ?r cs] = map (\<lambda>r. rail cyc (Suc pos) r cs) [0..<k]"
    using r by (intro nth_equalityI) (auto simp: nth_list_update)
  show ?case
    using Cons.IH [of "Suc pos"] by (simp add: Let_def hd tl del: rail.simps)
qed

lemma cycle_indices_3: "cycle_indices 3 = [0, 1, 2, 1]"
  by code_simp

lemma mod4_cases: "(pos::nat) mod 4 = 0 \<or> pos mod 4 = 1 \<or> pos mod 4 = 2 \<or> pos mod 4 = 3"
  by arith

lemma cyc3_top: "([0, 1, 2, 1] ! (pos mod 4) = (0::nat)) = (pos mod 4 = 0)"
  using mod4_cases [of pos] by (elim disjE) simp_all

lemma cyc3_mid: "([0, 1, 2, 1] ! (pos mod 4) = (1::nat)) = odd pos"
proof -
  have "odd pos = (pos mod 4 = 1 \<or> pos mod 4 = 3)" by presburger
  then show ?thesis
    using mod4_cases [of pos] by (elim disjE) simp_all
qed

lemma len4: "length [0, 1, 2, 1::nat] = 4"
  by simp

lemma div4_step: "(Suc pos + 3) div 4 = (pos + 3) div 4 + (if pos mod 4 = 0 then 1 else 0)"
  by presburger

lemma div2_step: "Suc pos div 2 = pos div 2 + (if odd pos then 1 else 0)"
  by presburger

lemma rail3_top:
  "length (rail [0, 1, 2, 1] pos 0 text) + (pos + 3) div 4 = (pos + length text + 3) div 4"
proof (induction "text" arbitrary: pos)
  case Nil
  then show ?case by simp
next
  case (Cons c cs)
  have "length (rail [0, 1, 2, 1] pos 0 (c # cs)) + (pos + 3) div 4
          = length (rail [0, 1, 2, 1] (Suc pos) 0 cs) + (Suc pos + 3) div 4"
    unfolding div4_step rail.simps(2) [of _ pos] len4 cyc3_top by simp
  also have "\<dots> = (Suc pos + length cs + 3) div 4" by (rule Cons.IH)
  finally show ?case by simp
qed

lemma rail3_mid:
  "length (rail [0, 1, 2, 1] pos 1 text) + pos div 2 = (pos + length text) div 2"
proof (induction "text" arbitrary: pos)
  case Nil
  then show ?case by simp
next
  case (Cons c cs)
  have "length (rail [0, 1, 2, 1] pos 1 (c # cs)) + pos div 2
          = length (rail [0, 1, 2, 1] (Suc pos) 1 cs) + Suc pos div 2"
    unfolding div2_step rail.simps(2) [of _ pos] len4 cyc3_mid by simp
  also have "\<dots> = (Suc pos + length cs) div 2" by (rule Cons.IH)
  finally show ?case by simp
qed

lemma py_slice_nat: "py_slice xs (int a) (int b) = take (b - a) (drop a xs)"
proof (cases "a \<le> length xs")
  case True
  then have "py_slice xs (int a) (int b) = take (min b (length xs) - a) (drop a xs)"
    by (simp add: py_slice_def Let_def min_def nat_diff_distrib')
  also have "\<dots> = take (b - a) (drop a xs)"
    by (cases "b \<le> length xs") (simp_all add: min_def)
  finally show ?thesis .
next
  case False
  then show ?thesis by (simp add: py_slice_def Let_def min_def)
qed

lemma rail3_total:
  "length (rail [0, 1, 2, 1] pos 0 t) + length (rail [0, 1, 2, 1] pos 1 t)
     + length (rail [0, 1, 2, 1] pos 2 t) = length t"
proof (induction t arbitrary: pos)
  case Nil
  then show ?case by simp
next
  case (Cons c cs)
  from mod4_cases [of pos] Cons.IH [of "Suc pos"] show ?case
    by (elim disjE) simp_all
qed

lemma ceil_periods3: "\<lceil>periods 3 m\<rceil> = (m + 3) div 4"
proof -
  have "periods 3 m = of_int m / of_int 4" by (simp add: periods_def)
  then have "\<lceil>periods 3 m\<rceil> = - (- m div 4)"
    by (simp only: ceiling_divide_eq_div)
  then show ?thesis by presburger
qed

lemma upt3: "[0..<3] = [0, 1, 2::nat]"
  by (simp add: upt_rec)

lemma RailFence3_encrypt:
  "RailFence_encrypt \<lparr>rf_key = 3\<rparr> T
     = rail [0, 1, 2, 1] 0 0 T @ rail [0, 1, 2, 1] 0 1 T @ rail [0, 1, 2, 1] 0 2 T"
proof -
  define cyc :: "nat list" where "cyc = [0, 1, 2, 1]"
  have sub: "cyc \<noteq> []" "set cyc \<subseteq> {..<length [[], [], []::string]}"
    by (auto simp: cyc_def)
  have rep: "replicate (nat 3) [] = [[], [], []::string]"
    by (simp add: numeral_3_eq_3)
  have "RailFence_encrypt \<lparr>rf_key = 3\<rparr> T
          = concat (deal (cycle_indices 3) 0 T (replicate (nat 3) []))"
    by (simp add: RailFence_encrypt_def)
  also have "\<dots> = concat (deal cyc 0 T [[], [], []])"
    unfolding cycle_indices_3 rep cyc_def ..
  also have "\<dots> = concat (map (\<lambda>r. [[], [], []] ! r @ rail cyc 0 r T) [0..<length [[], [], []::string]])"
    unfolding deal_rail [OF sub] ..
  also have "\<dots> = rail cyc 0 0 T @ rail cyc 0 1 T @ rail cyc 0 2 T"
    by (simp add: upt3 numeral_2_eq_2)
  finally show ?thesis unfolding cyc_def .
qed

lemma RailFence3_decrypt_unfold:
  "RailFence_decrypt \<lparr>rf_key = 3\<rparr> ct =
     (let n = int (length ct);
          a = \<lceil>periods 3 n\<rceil>;
          b = a + \<lceil>periods 3 (n - 1)\<rceil> + \<lceil>periods 3 (n - 1 - (3 - 1 - 1) * 2)\<rceil>
      in draw (cycle_indices 3) 0 (length ct) [py_slice ct 0 a, py_slice ct a b, py_slice ct b n])"
proof -
  have up: "[1..3 - 2] = [1::int]"
    by (simp add: upto.simps)
  show ?thesis
    by (simp add: RailFence_decrypt_def Let_def up)
qed

lemma RailFence3_decrypt_rails:
  fixes T :: string
  defines "R0 \<equiv> rail [0, 1, 2, 1] 0 0 T" and "R1 \<equiv> rail [0, 1, 2, 1] 0 1 T"
    and "R2 \<equiv> rail [0, 1, 2, 1] 0 2 T"
  shows "RailFence_decrypt \<lparr>rf_key = 3\<rparr> (R0 @ R1 @ R2) = Inr T"
proof -
  define ct where "ct = R0 @ R1 @ R2"
  define n where "n = int (length ct)"
  define a where "a = \<lceil>periods 3 n\<rceil>"
  define b where "b = a + \<lceil>periods 3 (n - 1)\<rceil> + \<lceil>periods 3 (n - 1 - (3 - 1 - 1) * 2)\<rceil>"
  have len: "length ct = length T"
    using rail3_total [of 0 T] by (simp add: ct_def R0_def R1_def R2_def)
  have l0: "length R0 = (length T + 3) div 4"
    using rail3_top [of 0 T] by (simp add: R0_def)
  have l1: "length R1 = length T div 2"
    using rail3_mid [of 0 T] by (simp add: R1_def)
  have n: "n = int (length T)" by (simp add: n_def len)
  have a: "a = int (length R0)"
    unfolding a_def ceil_periods3 l0 n by (simp add: zdiv_int)
  have "(n - 1 + 3) div 4 + (n - 1 - (3 - 1 - 1) * 2 + 3) div 4 = n div 2"
    by presburger
  then have b: "b = int (length R0 + length R1)"
    unfolding b_def a ceil_periods3 l1 n by (simp add: zdiv_int)
  have n': "n = int (length ct)" by (simp add: n_def)
  have s0: "py_slice ct 0 a = R0"
    unfolding a using py_slice_nat [of ct 0 "length R0"] by (simp add: ct_def)
  have s1: "py_slice ct a b = R1"
    unfolding a b using py_slice_nat [of ct "length R0" "length R0 + length R1"]
    by (simp add: ct_def)
  have s2: "py_slice ct b n = R2"
    unfolding b n' using py_slice_nat [of ct "length R0 + length R1" "length ct"]
    by (simp add: ct_def)
  have rows: "map (\<lambda>r. rail [0, 1, 2, 1] 0 r T) [0..<3] = [R0, R1, R2]"
    by (simp add: upt3 R0_def R1_def R2_def)
  have "draw [0, 1, 2, 1] 0 (length T) (map (\<lambda>r. rail [0, 1, 2, 1] 0 r T) [0..<3]) = Inr T"
    by (rule draw_rail) auto
  then have d: "draw [0, 1, 2, 1] 0 (length ct) [R0, R1, R2] = Inr T"
    unfolding rows len .
  have "RailFence_decrypt \<lparr>rf_key = 3\<rparr> ct
          = draw (cycle_indices 3) 0 (length ct) [py_slice ct 0 a, py_slice ct a b, py_slice ct b n]"
    unfolding RailFence3_decrypt_unfold Let_def a_def b_def n_def ..
  also have "\<dots> = Inr T"
    unfolding s0 s1 s2 cycle_indices_3 by (rule d)
  finally show ?thesis unfolding ct_def .
qed

text \<open>
  Claim C5. \<open>RailFence(3)\<close> is constructed without error, and for every text \<open>T\<close>, of
  any length (0, 1, 2 and lengths that are not multiples of the period 4 included),
  \<open>decrypt(encrypt(T))\<close> returns \<open>T\<close>. Row lengths are computed with exact division;
  dividing by the period 4 is exact in floating point as well.
\<close>

theorem RailFence3_roundtrip:
  "RailFence_init 3 = Inr \<lparr>rf_key = 3\<rparr> \<and>
   RailFence_decrypt \<lparr>rf_key = 3\<rparr> (RailFence_encrypt \<lparr>rf_key = 3\<rparr> T) = Inr T"
  unfolding RailFence3_encrypt using RailFence3_decrypt_rails [of T]
  by (simp add: RailFence_init_def)


section \<open>Columnar transposition: decryption after encryption\<close>

lemma collect_map_Inr:
  assumes "\<And>x. x \<in> set xs \<Longrightarrow> f x = Inr (g x)"
  shows "collect (map f xs) = Inr (map g xs)"
  using assms by (induction xs) simp_all

lemma dict_of_zip_map:
  "dict_of (zip xs (map f xs)) = (\<lambda>x. if x \<in> set xs then Some (f x) else None)"
proof -
  have "rev (zip xs (map f xs)) = zip (rev xs) (map f (rev xs))"
    by (simp add: zip_rev [symmetric] rev_map)
  then show ?thesis
    unfolding dict_of_def using map_of_zip_map [of "rev xs" f] by simp
qed

lemma concat_blocks_length:
  assumes "\<And>xs. xs \<in> set xss \<Longrightarrow> length xs = r"
  shows "length (concat xss) = length xss * r"
  using assms by (induction xss) simp_all

lemma concat_blocks_nth:
  assumes "\<And>xs. xs \<in> set xss \<Longrightarrow> length xs = r" "i < length xss"
  shows "take r (drop (i * r) (concat xss)) = xss ! i"
  using assms
proof (induction xss arbitrary: i)
  case Nil
  then show ?case by simp
next
  case (Cons xs xss)
  have lx: "length xs = r" using Cons.prems(1) by simp
  show ?case
  proof (cases i)
    case 0
    then show ?thesis using lx by simp
  next
    case (Suc j)
    have "take r (drop (j * r) (concat xss)) = xss ! j"
      by (rule Cons.IH) (use Cons.prems Suc in auto)
    then show ?thesis using lx Suc by simp
  qed
qed

lemma concat_rows:
  assumes "length t = r * k"
  shows "concat (map (\<lambda>j. map (\<lambda>i. t ! (i + j * k)) [0..<k]) [0..<r]) = t"
  using assms
proof (induction r arbitrary: t)
  case 0
  then show ?case by simp
next
  case (Suc r)
  have k: "k \<le> length t" using Suc.prems by simp
  have first: "map (\<lambda>i. t ! (i + 0 * k)) [0..<k] = take k t"
    using k by (intro nth_equalityI) simp_all
  have shift: "map (\<lambda>i. t ! (i + Suc j * k)) [0..<k] = map (\<lambda>i. drop k t ! (i + j * k)) [0..<k]" for j
    using k by (simp add: add.commute add.left_commute)
  have "length (drop k t) = r * k" using Suc.prems by simp
  from Suc.IH [OF this]
  have rest: "concat (map (\<lambda>j. map (\<lambda>i. t ! (i + Suc j * k)) [0..<k]) [0..<r]) = drop k t"
    unfolding shift .
  have "[0..<Suc r] = 0 # map Suc [0..<r]"
    by (simp add: upt_conv_Cons map_Suc_upt del: upt_Suc)
  then have "concat (map (\<lambda>j. map (\<lambda>i. t ! (i + j * k)) [0..<k]) [0..<Suc r])
               = map (\<lambda>i. t ! (i + 0 * k)) [0..<k]
                 @ concat (map (\<lambda>j. map (\<lambda>i. t ! (i + Suc j * k)) [0..<k]) [0..<r])"
    by (simp add: comp_def del: upt_Suc)
  then show ?case unfolding first rest by simp
qed

lemma rstrip_pad: "rstrip [p] (t @ replicate m p) = rstrip [p] t"
  by (simp add: rstrip_def dropWhile_append)

lemma count_list_distinct:
  assumes "\<not> list_ex (\<lambda>c. count_list key c > 1) key"
  shows "distinct key"
proof -
  have le: "count_list key c \<le> 1" if "c \<in> set key" for c
    using assms that by (force simp: list_ex_iff)
  show ?thesis
  proof (rule ccontr)
    assume "\<not> distinct key"
    then obtain xs ys zs y where key: "key = xs @ [y] @ ys @ [y] @ zs"
      using not_distinct_decomp by blast
    then have "count_list key y \<ge> 2" by simp
    moreover have "y \<in> set key" using key by simp
    ultimately show False using le [of y] by simp
  qed
qed

lemma Column_init_Inr:
  assumes "Column_init key pad = Inr C"
  shows "key \<noteq> []" "distinct key" "\<exists>p. pad = [p]" "C = \<lparr>col_key = key, col_pad = pad\<rparr>"
proof -
  from assms have 1: "\<not> length key < 1" and 2: "\<not> list_ex (\<lambda>c. count_list key c > 1) key"
    and 3: "length pad = 1" and 4: "C = \<lparr>col_key = key, col_pad = pad\<rparr>"
    by (auto simp: Column_init_def split: if_splits)
  show "key \<noteq> []" using 1 by auto
  show "distinct key" using 2 by (rule count_list_distinct)
  show "\<exists>p. pad = [p]" using 3 by (cases pad) auto
  show "C = \<lparr>col_key = key, col_pad = pad\<rparr>" by (rule 4)
qed

lemma slice_step_full:
  assumes "length t = r * k" "i < k"
  shows "slice_step t i k = map (\<lambda>j. t ! (i + j * k)) [0..<r]"
proof -
  have "(r * k + k - 1 - i) div k = r"
  proof -
    have "r * k + k - 1 - i = (k - 1 - i) + r * k" using assms(2) by simp
    moreover have "k - 1 - i < k" using assms(2) by simp
    ultimately show ?thesis by simp
  qed
  then show ?thesis by (simp add: slice_step_def assms(1))
qed

lemma zip_star_columns:
  assumes "0 < k" "length t = r * k"
  shows "concat (zip_star (map (\<lambda>i. map (\<lambda>j. t ! (i + j * k)) [0..<r]) [0..<k])) = t"
proof -
  let ?cols = "map (\<lambda>i. map (\<lambda>j. t ! (i + j * k)) [0..<r]) [0..<k]"
  have ne: "?cols \<noteq> []" using assms(1) by simp
  have "set (map length ?cols) = (\<lambda>i. r) ` {0..<k}" by (simp add: image_image)
  also have "\<dots> = {r}" using assms(1) by auto
  finally have m: "Min (set (map length ?cols)) = r" by simp
  have "zip_star ?cols = map (\<lambda>j. map (\<lambda>col. col ! j) ?cols) [0..<r]"
    unfolding zip_star_def m using ne by simp
  also have "\<dots> = map (\<lambda>j. map (\<lambda>i. t ! (i + j * k)) [0..<k]) [0..<r]"
    by (simp add: comp_def)
  finally show ?thesis using concat_rows [OF assms(2)] by simp
qed

lemma Column_roundtrip:
  assumes "Column_init key pad = Inr C"
  shows "\<exists>ct. Column_encrypt C text = Inr ct \<and> Column_decrypt C ct = Inr (rstrip pad text)"
proof -
  from Column_init_Inr [OF assms] obtain p where
    ne: "key \<noteq> []" and dk: "distinct key" and pad: "pad = [p]"
    and C: "C = \<lparr>col_key = key, col_pad = pad\<rparr>" by blast
  define k where "k = length key"
  have k0: "0 < k" using ne by (simp add: k_def)
  define m where "m = (if length text mod k \<noteq> 0 then k - length text mod k else 0)"
  define t where "t = text @ replicate m p"
  define r where "r = length t div k"
  have t_len: "length t = r * k"
  proof -
    have "length t mod k = 0"
    proof (cases "length text mod k = 0")
      case True
      then show ?thesis by (simp add: t_def m_def)
    next
      case False
      define q where "q = length text div k"
      define m' where "m' = length text mod k"
      have 1: "length text = q * k + m'" by (simp add: q_def m'_def)
      have 2: "m' < k" using k0 by (simp add: m'_def)
      have "length t = length text + (k - m')"
        using False by (simp add: t_def m_def m'_def)
      also have "\<dots> = q * k + k" using 1 2 by linarith
      also have "\<dots> = (q + 1) * k" by simp
      finally show ?thesis by simp
    qed
    then show ?thesis
      using div_mult_mod_eq [of "length t" k] by (simp add: r_def)
  qed
  have text1: "(if length text mod k \<noteq> 0
                then text @ concat (replicate (k - length text mod k) pad) else text) = t"
  proof -
    have "concat (replicate j [p]) = replicate j p" for j
      by (induction j) simp_all
    then show ?thesis by (simp add: t_def m_def pad)
  qed
  define col where "col = (\<lambda>i. map (\<lambda>j. t ! (i + j * k)) [0..<r])"
  define cols where "cols = map col [0..<k]"
  have cols_eq: "map (\<lambda>i. slice_step t i k) [0..<k] = cols"
    unfolding cols_def col_def using slice_step_full [OF t_len] by simp
  have cols_len: "length cols = length key" by (simp add: cols_def k_def)
  define colf where "colf = (\<lambda>c. the (dict_of (zip key cols) c))"
  have d_key: "dict_of (zip key cols) (key ! i) = Some (cols ! i)" if "i < k" for i
    using dict_of_zip_nth [OF dk, of cols i] that cols_len by (simp add: k_def)
  have d_in: "getitem (dict_of (zip key cols)) c = Inr (colf c)" if "c \<in> set key" for c
  proof -
    from that obtain i where "i < k" "c = key ! i" by (auto simp: in_set_conv_nth k_def)
    then show ?thesis using d_key [of i] by (simp add: getitem_def colf_def)
  qed
  have colf_len: "length (colf c) = r" if "c \<in> set key" for c
  proof -
    from that obtain i where i: "i < k" "c = key ! i" by (auto simp: in_set_conv_nth k_def)
    then have "colf c = col i" using d_key [of i] by (simp add: colf_def cols_def)
    then show ?thesis by (simp add: col_def)
  qed
  have colf_key: "map colf key = cols"
  proof (rule nth_equalityI)
    show "length (map colf key) = length cols" by (simp add: cols_len)
    fix i assume "i < length (map colf key)"
    then have "i < k" by (simp add: k_def)
    then show "map colf key ! i = cols ! i"
      using d_key [of i] by (simp add: colf_def k_def)
  qed
  define blocks where "blocks = map colf (sort key)"
  define ct where "ct = concat blocks"
  have enc: "Column_encrypt C text = Inr ct"
  proof -
    have "collect (map (getitem (dict_of (zip key cols))) (sort key)) = Inr blocks"
      unfolding blocks_def by (rule collect_map_Inr) (simp add: d_in)
    moreover have "Column_encrypt C text
        = map_sum id concat (collect (map (getitem (dict_of (zip key cols))) (sort key)))"
      unfolding Column_encrypt_def Let_def C Column.select_convs k_def [symmetric] text1 cols_eq
      using k0 by simp
    ultimately show ?thesis by (simp add: ct_def)
  qed
  have blocks_r: "length xs = r" if "xs \<in> set blocks" for xs
    using that colf_len by (auto simp: blocks_def)
  have blocks_k: "length blocks = k" by (simp add: blocks_def k_def)
  have ct_len: "length ct = k * r"
    unfolding ct_def using concat_blocks_length [of blocks r] blocks_r blocks_k by simp
  have rows: "length ct div k = r" using k0 by (simp add: ct_len)
  have cut: "map (\<lambda>i. py_slice ct (int (i * r)) (int ((i + 1) * r))) [0..<k] = blocks"
  proof (rule nth_equalityI)
    show "length (map (\<lambda>i. py_slice ct (int (i * r)) (int ((i + 1) * r))) [0..<k]) = length blocks"
      by (simp add: blocks_k)
    fix i assume "i < length (map (\<lambda>i. py_slice ct (int (i * r)) (int ((i + 1) * r))) [0..<k])"
    then have i: "i < k" by simp
    have "py_slice ct (int (i * r)) (int ((i + 1) * r)) = take r (drop (i * r) ct)"
      unfolding py_slice_nat by simp
    also have "\<dots> = blocks ! i"
      unfolding ct_def using blocks_r i by (intro concat_blocks_nth) (simp_all add: blocks_k)
    finally show "map (\<lambda>i. py_slice ct (int (i * r)) (int ((i + 1) * r))) [0..<k] ! i = blocks ! i"
      using i by simp
  qed
  have d2: "getitem (dict_of (zip (sort key) blocks)) c = Inr (colf c)" if "c \<in> set key" for c
    unfolding blocks_def dict_of_zip_map using that by (simp add: getitem_def)
  have dec: "Column_decrypt C ct = Inr (rstrip pad text)"
  proof -
    have "collect (map (getitem (dict_of (zip (sort key) blocks))) key) = Inr cols"
      unfolding colf_key [symmetric] by (rule collect_map_Inr) (simp add: d2)
    moreover have "concat (zip_star cols) = t"
      unfolding cols_def col_def by (rule zip_star_columns [OF k0 t_len])
    moreover have "rstrip pad t = rstrip pad text"
      unfolding t_def pad by (rule rstrip_pad)
    moreover have "Column_decrypt C ct
        = map_sum id (\<lambda>cols. rstrip pad (concat (zip_star cols)))
            (collect (map (getitem (dict_of (zip (sort key) blocks))) key))"
      unfolding Column_decrypt_def Let_def C Column.select_convs k_def [symmetric] rows cut
      using k0 by (simp add: ct_len)
    ultimately show ?thesis by simp
  qed
  from enc dec show ?thesis by blast
qed

lemma rstrip_split:
  "\<exists>j. s = rstrip [p] s @ replicate j p"
proof -
  let ?P = "\<lambda>c. c \<in> set [p]"
  have "rev s = takeWhile ?P (rev s) @ dropWhile ?P (rev s)" by simp
  then have "s = rev (dropWhile ?P (rev s)) @ rev (takeWhile ?P (rev s))"
    by (metis rev_append rev_rev_ident)
  moreover have "\<forall>c \<in> set (rev (takeWhile ?P (rev s))). c = p"
    using set_takeWhileD [of _ ?P "rev s"] by auto
  then have "rev (takeWhile ?P (rev s)) = replicate (length (rev (takeWhile ?P (rev s)))) p"
    by (intro replicate_eqI) auto
  ultimately show ?thesis unfolding rstrip_def by metis
qed

lemma rstrip_no_trailing: "rstrip [p] s = [] \<or> last (rstrip [p] s) \<noteq> p"
proof (cases "dropWhile (\<lambda>c. c \<in> set [p]) (rev s) = []")
  case True
  then show ?thesis by (simp add: rstrip_def)
next
  case False
  then have "\<not> hd (dropWhile (\<lambda>c. c \<in> set [p]) (rev s)) \<in> set [p]"
    using hd_dropWhile by metis
  then show ?thesis using False by (simp add: rstrip_def last_rev)
qed

lemma rstrip_shorter:
  assumes "s \<noteq> []" "last s = p"
  shows "\<exists>j. s = rstrip [p] s @ replicate (Suc j) p"
proof -
  obtain j where j: "s = rstrip [p] s @ replicate j p" using rstrip_split by blast
  have "j \<noteq> 0"
  proof
    assume "j = 0"
    with j have "rstrip [p] s = s" by simp
    with rstrip_no_trailing [of p s] assms show False by simp
  qed
  then obtain j' where "j = Suc j'" by (cases j) auto
  with j show ?thesis by blast
qed

text \<open>
  Claim C10. For a column cipher constructed from any key and the pad character \<open>p\<close>,
  and every non-empty plaintext whose last character is \<open>p\<close>: encryption succeeds,
  decryption of the ciphertext returns the plaintext with every trailing \<open>p\<close> stripped
  (the result does not end in \<open>p\<close>), and that result is a proper prefix of the
  plaintext, shorter by at least one character.
\<close>

theorem Column_trailing_pad_lost:
  assumes "Column_init key [p] = Inr C" "text \<noteq> []" "last text = p"
  shows "\<exists>ct r j. Column_encrypt C text = Inr ct \<and> Column_decrypt C ct = Inr r \<and>
           r = rstrip [p] text \<and> text = r @ replicate (Suc j) p \<and>
           length r < length text \<and> r \<noteq> text \<and> (r = [] \<or> last r \<noteq> p)"
proof -
  from Column_roundtrip [OF assms(1), of "text"] obtain ct where
    ct: "Column_encrypt C text = Inr ct" "Column_decrypt C ct = Inr (rstrip [p] text)"
    by blast
  from rstrip_shorter [OF assms(2,3)] obtain j where
    j: "text = rstrip [p] text @ replicate (Suc j) p" by blast
  have "length text = length (rstrip [p] text) + Suc j"
    using arg_cong [OF j, of length] by simp
  then have len: "length (rstrip [p] text) < length text" by simp
  then have ne: "rstrip [p] text \<noteq> text" by auto
  show ?thesis
  proof (intro exI conjI)
    show "Column_encrypt C text = Inr ct" by (rule ct(1))
    show "Column_decrypt C ct = Inr (rstrip [p] text)" by (rule ct(2))
    show "rstrip [p] text = rstrip [p] text" ..
    show "text = rstrip [p] text @ replicate (Suc j) p" by (rule j)
    show "length (rstrip [p] text) < length text" by (rule len)
    show "rstrip [p] text \<noteq> text" by (rule ne)
    show "rstrip [p] text = [] \<or> last (rstrip [p] text) \<noteq> p"
      by (rule rstrip_no_trailing)
  qed
qed

theorem Column_trailing_pad_lost_witness:
  "Column_init ''CIPHER'' [CHR ''x''] = Inr \<lparr>col_key = ''CIPHER'', col_pad = ''x''\<rparr> \<and>
   ''box'' \<noteq> [] \<and> last ''box'' = CHR ''x'' \<and>
   (\<exists>ct r j. Column_encrypt \<lparr>col_key = ''CIPHER'', col_pad = ''x''\<rparr> ''box'' = Inr ct \<and>
       Column_decrypt \<lparr>col_key = ''CIPHER'', col_pad = ''x''\<rparr> ct = Inr r \<and>
       r = rstrip [CHR ''x''] ''box'' \<and> ''box'' = r @ replicate (Suc j) CHR ''x'' \<and>
       length r < length ''box'' \<and> r \<noteq> ''box'' \<and> (r = [] \<or> last r \<noteq> CHR ''x'')) \<and>
   rstrip [CHR ''x''] ''box'' = ''bo''"
proof -
  have h1: "Column_init ''CIPHER'' [CHR ''x''] = Inr \<lparr>col_key = ''CIPHER'', col_pad = ''x''\<rparr>"
    by (simp add: Column_init_def)
  have h2: "''box'' \<noteq> []" by simp
  have h3: "last ''box'' = CHR ''x''" by simp
  have e: "rstrip [CHR ''x''] ''box'' = ''bo''" by code_simp
  from Column_trailing_pad_lost [OF h1 h2 h3] h1 h2 h3 e show ?thesis by blast
qed


section \<open>Floating-point numbers: rounding\<close>

text \<open>
  \<open>binade\<close> finds the exponent; hence \<open>round_double\<close> is determined by the binade of its
  argument and by the integer nearest to the scaled argument. Integers below \<open>2\<^sup>5\<^sup>3\<close> are
  doubles, and rounding a positive number changes it by at most one part in \<open>2\<^sup>5\<^sup>3\<close>.
\<close>

lemma bits_bounds: "0 < n \<Longrightarrow> 2 ^ (bits n - 1) \<le> n \<and> n < 2 ^ bits n"
proof (induction n rule: bits.induct)
  case (1 n)
  show ?case
  proof (cases "n div 2 = 0")
    case True
    with "1.prems" have "n = 1" by auto
    then show ?thesis by (simp add: bits.simps)
  next
    case False
    then have pos: "0 < n div 2" by simp
    from "1.IH" [OF _ pos] "1.prems"
    have ih: "2 ^ (bits (n div 2) - 1) \<le> n div 2" "n div 2 < 2 ^ bits (n div 2)" by auto
    have b: "bits n = Suc (bits (n div 2))" using "1.prems" by (subst bits.simps) simp
    have k: "0 < bits (n div 2)" using pos by (subst bits.simps) simp
    have "2 ^ (bits n - 1) = 2 * 2 ^ (bits (n div 2) - 1)"
      using k by (simp add: b power_Suc [symmetric] del: power_Suc)
    also have "\<dots> \<le> 2 * (n div 2)" using ih(1) by simp
    also have "\<dots> \<le> n" by simp
    finally have lo: "2 ^ (bits n - 1) \<le> n" .
    have "n < 2 * (n div 2) + 2" by presburger
    also have "\<dots> \<le> 2 * 2 ^ bits (n div 2)" using ih(2) by simp
    finally have "n < 2 ^ bits n" by (simp add: b)
    with lo show ?thesis by simp
  qed
qed

lemma powi_mono: "e \<le> e' \<Longrightarrow> (2::rat) powi e \<le> 2 powi e'"
  by (rule power_int_increasing) simp_all

lemma binade_correct:
  assumes "0 < q"
  shows "2 powi (binade q) \<le> q" and "q < 2 powi (binade q + 1)"
proof -
  obtain a b where ab: "quotient_of q = (a, b)" by (cases "quotient_of q")
  then have b: "0 < b" and q: "q = of_int a / of_int b"
    using quotient_of_denom_pos quotient_of_div by blast+
  have a: "0 < a" using assms b q by (simp add: zero_less_divide_iff)
  define la where "la = bits (nat a)"
  define lb where "lb = bits (nat b)"
  define e where "e = int la - int lb"
  have A: "2 ^ (la - 1) \<le> nat a" "nat a < 2 ^ la"
    using bits_bounds [of "nat a"] a by (simp_all add: la_def)
  have B: "2 ^ (lb - 1) \<le> nat b" "nat b < 2 ^ lb"
    using bits_bounds [of "nat b"] b by (simp_all add: lb_def)
  have la: "0 < la" using a by (subst la_def, subst bits.simps) simp
  have lb: "0 < lb" using b by (subst lb_def, subst bits.simps) simp
  have ra: "(2::rat) ^ (la - 1) \<le> of_int a" "of_int a < (2::rat) ^ la"
  proof -
    have "of_nat (2 ^ (la - 1)) \<le> (of_nat (nat a) :: rat)" using A(1) by (simp only: of_nat_le_iff)
    then show "(2::rat) ^ (la - 1) \<le> of_int a" using a by simp
    have "(of_nat (nat a) :: rat) < of_nat (2 ^ la)" using A(2) by (simp only: of_nat_less_iff)
    then show "of_int a < (2::rat) ^ la" using a by simp
  qed
  have rb: "(2::rat) ^ (lb - 1) \<le> of_int b" "of_int b < (2::rat) ^ lb"
  proof -
    have "of_nat (2 ^ (lb - 1)) \<le> (of_nat (nat b) :: rat)" using B(1) by (simp only: of_nat_le_iff)
    then show "(2::rat) ^ (lb - 1) \<le> of_int b" using b by simp
    have "(of_nat (nat b) :: rat) < of_nat (2 ^ lb)" using B(2) by (simp only: of_nat_less_iff)
    then show "of_int b < (2::rat) ^ lb" using b by simp
  qed
  have bpos: "(0::rat) < of_int b" using b by simp
  have lower: "2 powi (e - 1) \<le> q"
  proof -
    have "e - 1 = int (la - 1) - int lb" using la by (simp add: e_def of_nat_diff)
    moreover have "(2::rat) powi (int (la - 1) - int lb) = 2 powi int (la - 1) / 2 powi int lb"
      by (rule power_int_diff) simp
    ultimately have "(2::rat) powi (e - 1) = 2 ^ (la - 1) / 2 ^ lb"
      by (simp only: power_int_of_nat)
    also have "\<dots> \<le> of_int a / 2 ^ lb" using ra(1) by (simp add: divide_right_mono)
    also have "\<dots> \<le> of_int a / of_int b"
      using rb(2) bpos a by (intro divide_left_mono) (simp_all add: less_imp_le)
    finally show ?thesis by (simp add: q)
  qed
  have upper: "q < 2 powi (e + 1)"
  proof -
    have "q = of_int a / of_int b" by (rule q)
    also have "\<dots> < 2 ^ la / of_int b" using ra(2) bpos by (simp add: divide_strict_right_mono)
    also have "\<dots> \<le> 2 ^ la / 2 ^ (lb - 1)"
      using rb(1) bpos by (intro divide_left_mono) simp_all
    also have "\<dots> = (2::rat) powi (e + 1)"
    proof -
      have "e + 1 = int la - int (lb - 1)" using lb by (simp add: e_def of_nat_diff)
      moreover have "(2::rat) powi (int la - int (lb - 1)) = 2 powi int la / 2 powi int (lb - 1)"
        by (rule power_int_diff) simp
      ultimately show ?thesis by (simp only: power_int_of_nat)
    qed
    finally show ?thesis .
  qed
  have bin: "binade q = (if q < 2 powi e then e - 1 else e)"
    by (simp add: binade_def ab e_def la_def lb_def)
  show "2 powi (binade q) \<le> q" using lower by (simp add: bin)
  show "q < 2 powi (binade q + 1)" using upper by (simp add: bin)
qed

lemma binade_unique:
  assumes "2 powi e \<le> q" "q < 2 powi (e + 1)"
  shows "binade q = e"
proof -
  have "(0::rat) < 2 powi e" by simp
  with assms(1) have pos: "0 < q" by linarith
  note c = binade_correct [OF pos]
  show ?thesis
  proof (rule ccontr)
    assume "binade q \<noteq> e"
    then consider "binade q + 1 \<le> e" | "e + 1 \<le> binade q" by linarith
    then show False
    proof cases
      case 1
      from powi_mono [OF 1] c(2) assms(1) show False by simp
    next
      case 2
      from powi_mono [OF 2] c(1) assms(2) show False by simp
    qed
  qed
qed

lemma round_double_in_binade:
  assumes "2 powi e \<le> q" "q < 2 powi (e + 1)"
  shows "round_double q = of_int (round_half_even (q / 2 powi (e - 52))) * 2 powi (e - 52)"
proof -
  have "(0::rat) < 2 powi e" by simp
  with assms(1) have pos: "0 < q" by linarith
  then have "binade \<bar>q\<bar> = e" using binade_unique [OF assms] by simp
  then show ?thesis using pos by (simp add: round_double_def Let_def)
qed

lemma round_half_even_floor: "\<lfloor>x\<rfloor> \<le> round_half_even x"
  by (simp add: round_half_even_def Let_def)

lemma round_double_pos:
  assumes "0 < q"
  shows "0 < round_double q"
proof -
  define e where "e = binade q"
  note c = binade_correct [OF assms, folded e_def]
  have "2 ^ 52 = (2::rat) powi e / 2 powi (e - 52)"
    by (simp add: power_int_diff)
  also have "\<dots> \<le> q / 2 powi (e - 52)" using c(1) by (simp add: divide_right_mono)
  finally have "(2::rat) ^ 52 \<le> q / 2 powi (e - 52)" .
  then have "of_int ((2::int) ^ 52) \<le> q / 2 powi (e - 52)" by simp
  then have "(2::int) ^ 52 \<le> \<lfloor>q / 2 powi (e - 52)\<rfloor>" by (simp only: le_floor_iff)
  moreover have "(0::int) < 2 ^ 52" by simp
  ultimately have "(0::int) < round_half_even (q / 2 powi (e - 52))"
    using round_half_even_floor [of "q / 2 powi (e - 52)"] by linarith
  then show ?thesis
    unfolding round_double_in_binade [OF c] by simp
qed

lemma round_half_even_near:
  assumes "of_int m - 1 / 2 < x" "x < of_int m + 1 / 2"
  shows "round_half_even x = m"
proof (cases "of_int m \<le> x")
  case True
  then have f: "\<lfloor>x\<rfloor> = m" using assms(2) by (intro floor_unique) linarith+
  show ?thesis using assms(2) by (simp add: round_half_even_def Let_def f)
next
  case False
  then have f: "\<lfloor>x\<rfloor> = m - 1" using assms(1) by (intro floor_unique) (simp, linarith+)
  show ?thesis using assms(1) by (simp add: round_half_even_def Let_def f)
qed

lemma round_double_near:
  assumes "2 powi e \<le> q" "q < 2 powi (e + 1)"
    and "of_int m - 1 / 2 < q / 2 powi (e - 52)" "q / 2 powi (e - 52) < of_int m + 1 / 2"
  shows "round_double q = of_int m * 2 powi (e - 52)"
  unfolding round_double_in_binade [OF assms(1,2)] round_half_even_near [OF assms(3,4)] ..


lemma rd_int_10: "round_double 10 = 10"
proof -
  have "round_double 10 = of_int (10 * 2 ^ 49) * 2 powi (3 - 52)"
    by (rule round_double_near) (simp_all add: power_int_minus)
  also have "\<dots> = 10"
    by (simp add: power_int_minus)
  finally show ?thesis .
qed









section \<open>Frequency analysis\<close>




































section \<open>The affine cipher: construction\<close>









section \<open>The coordinate square: lookups are inverse to each other\<close>

lemma foldl_append_new:
  "distinct acc \<Longrightarrow> distinct (foldl append_new acc xs) \<and>
     set (foldl append_new acc xs) = set acc \<union> set xs"
proof (induction xs arbitrary: acc)
  case Nil
  then show ?case by simp
next
  case (Cons x xs)
  have "distinct (append_new acc x)" using Cons.prems by simp
  from Cons.IH [OF this] show ?case by auto
qed

lemma dedupe_distinct: "distinct (dedupe xs)"
  and dedupe_set: "set (dedupe xs) = set xs"
  using foldl_append_new [of "[]" xs] by (simp_all add: dedupe_def)

lemma Polybius_init_Inr:
  assumes "Polybius_init seed alphabet = Inr K"
  shows "distinct (pb_contents K)"
    and "length (pb_contents K) = pb_side K * pb_side K"
    and "pb_contents K = dedupe (seed @ alphabet)"
proof -
  let ?cs = "dedupe (seed @ alphabet)"
  from assms obtain L where L: "find (\<lambda>L. L * L = length ?cs) [0..<Suc (length ?cs)] = Some L"
    and K: "K = \<lparr>pb_contents = ?cs, pb_side = L\<rparr>"
    by (auto simp: Polybius_init_def Let_def split: option.splits)
  from L have "L * L = length ?cs"
    by (auto simp: find_Some_iff)
  then show "length (pb_contents K) = pb_side K * pb_side K" by (simp add: K)
  show "distinct (pb_contents K)" by (simp add: K dedupe_distinct)
  show "pb_contents K = dedupe (seed @ alphabet)" by (simp add: K)
qed

lemma index_nth_distinct:
  assumes "distinct cs" "j < length cs"
  shows "length (takeWhile (\<lambda>x. x \<noteq> cs ! j) cs) = j"
proof -
  have "takeWhile (\<lambda>x. x \<noteq> cs ! j) cs = take j cs"
  proof (rule takeWhile_eq_take_P_nth)
    fix i assume "i < j" "i < length cs"
    then show "cs ! i \<noteq> cs ! j"
      using assms by (simp add: nth_eq_iff_index_eq)
  next
    show "\<not> cs ! j \<noteq> cs ! j" by simp
  qed
  then show ?thesis using assms(2) by simp
qed

lemma index_less: "c \<in> set cs \<Longrightarrow> length (takeWhile (\<lambda>x. x \<noteq> c) cs) < length cs"
  by (induction cs) auto

lemma square_index:
  assumes "r < L" "k < (L::nat)"
  shows "r * L + k < L * L" "(r * L + k) div L = r" "(r * L + k) mod L = k"
proof -
  have "r * L + k < r * L + L" using assms(2) by simp
  also have "\<dots> = Suc r * L" by simp
  also have "\<dots> \<le> L * L" using assms(1) by (simp add: Suc_leI mult_le_mono1 del: mult_Suc)
  finally show "r * L + k < L * L" .
  show "(r * L + k) div L = r" using assms(2) by simp
  show "(r * L + k) mod L = k" using assms(2) by simp
qed

lemma Polybius_char_ok:
  assumes "distinct (pb_contents K)" "length (pb_contents K) = pb_side K * pb_side K"
    and "r < pb_side K" "k < pb_side K"
  shows "Polybius_char K (int r, int k) = Inr (pb_contents K ! (r * pb_side K + k))"
    and "pb_contents K ! (r * pb_side K + k) \<in> set (pb_contents K)"
    and "Polybius_coords K [pb_contents K ! (r * pb_side K + k)] = Inr (int r, int k)"
proof -
  let ?L = "pb_side K" and ?cs = "pb_contents K"
  let ?j = "r * ?L + k"
  note sq = square_index [OF assms(3,4)]
  have j: "?j < length ?cs" using sq(1) assms(2) by simp
  have "nat (int r * int ?L + int k) = ?j"
    by (simp add: nat_add_distrib nat_mult_distrib)
  then show "Polybius_char K (int r, int k) = Inr (?cs ! ?j)"
    using assms(3,4) by (simp add: Polybius_char_def Let_def)
  show mem: "?cs ! ?j \<in> set ?cs" using j by simp
  have "py_index ?cs (?cs ! ?j) = Inr ?j"
    using mem index_nth_distinct [OF assms(1) j] by (simp add: py_index_def)
  then show "Polybius_coords K [?cs ! ?j] = Inr (int r, int k)"
    using assms(4) by (simp add: Polybius_coords_def)
qed

lemma Polybius_coords_ok:
  assumes "length (pb_contents K) = pb_side K * pb_side K" "c \<in> set (pb_contents K)"
  shows "\<exists>r k. r < pb_side K \<and> k < pb_side K \<and> Polybius_coords K [c] = Inr (int r, int k) \<and>
           pb_contents K ! (r * pb_side K + k) = c"
proof -
  let ?L = "pb_side K" and ?cs = "pb_contents K"
  let ?i = "length (takeWhile (\<lambda>x. x \<noteq> c) ?cs)"
  have i: "?i < length ?cs"
    using assms(2) by (rule index_less)
  have c: "?cs ! ?i = c"
    using nth_length_takeWhile [OF i] by simp
  have L: "0 < ?L" using i assms(1) by (cases "?L") auto
  have r: "?i div ?L < ?L"
    using i assms(1) by (simp add: less_mult_imp_div_less)
  have k: "?i mod ?L < ?L" using L by simp
  have "Polybius_coords K [c] = Inr (int (?i div ?L), int (?i mod ?L))"
    using assms(2) by (simp add: Polybius_coords_def py_index_def)
  moreover have "?cs ! ((?i div ?L) * ?L + ?i mod ?L) = c" using c by simp
  ultimately show ?thesis using r k by blast
qed


section \<open>The two-square cipher and the reciprocal ciphers\<close>

lemma ts_digraph_invol:
  assumes d0: "distinct (pb_contents K0)" and l0: "length (pb_contents K0) = L * L"
    and d1: "distinct (pb_contents K1)" and l1: "length (pb_contents K1) = L * L"
    and s0: "pb_side K0 = L" and s1: "pb_side K1 = L"
    and C: "ts_keys C = (K0, K1)"
    and a: "a \<in> set (pb_contents K0)" and b: "b \<in> set (pb_contents K1)"
  shows "\<exists>x y. ts_digraph C a b = Inr [x, y] \<and> x \<in> set (pb_contents K0) \<and>
           y \<in> set (pb_contents K1) \<and> ts_digraph C x y = Inr [a, b]"
proof -
  from Polybius_coords_ok [of K0 a] l0 s0 a obtain r1 c1 where
    1: "r1 < L" "c1 < L" "Polybius_coords K0 [a] = Inr (int r1, int c1)"
       "pb_contents K0 ! (r1 * L + c1) = a" by auto
  from Polybius_coords_ok [of K1 b] l1 s1 b obtain r2 c2 where
    2: "r2 < L" "c2 < L" "Polybius_coords K1 [b] = Inr (int r2, int c2)"
       "pb_contents K1 ! (r2 * L + c2) = b" by auto
  have ch0: "Polybius_char K0 (int r, int k) = Inr (pb_contents K0 ! (r * L + k))"
            "pb_contents K0 ! (r * L + k) \<in> set (pb_contents K0)"
            "Polybius_coords K0 [pb_contents K0 ! (r * L + k)] = Inr (int r, int k)"
    if "r < L" "k < L" for r k
    using Polybius_char_ok [of K0 r k] d0 l0 s0 that by simp_all
  have ch1: "Polybius_char K1 (int r, int k) = Inr (pb_contents K1 ! (r * L + k))"
            "pb_contents K1 ! (r * L + k) \<in> set (pb_contents K1)"
            "Polybius_coords K1 [pb_contents K1 ! (r * L + k)] = Inr (int r, int k)"
    if "r < L" "k < L" for r k
    using Polybius_char_ok [of K1 r k] d1 l1 s1 that by simp_all
  show ?thesis
  proof (cases "ts_horizontal C")
    case True
    show ?thesis
    proof (cases "r1 = r2")
      case same: True
      have "ts_digraph C a b = Inr [a, b]"
        using True same 1(3) 2(3) by (simp add: ts_digraph_def C)
      then show ?thesis using a b by auto
    next
      case False
      let ?x = "pb_contents K0 ! (r2 * L + c1)" and ?y = "pb_contents K1 ! (r1 * L + c2)"
      have e: "ts_digraph C a b = Inr [?x, ?y]"
        using True False 1(3) 2(3) ch0(1) [OF 2(1) 1(2)] ch1(1) [OF 1(1) 2(2)]
        by (simp add: ts_digraph_def C)
      have "ts_digraph C ?x ?y = Inr [a, b]"
        using True False ch0(3) [OF 2(1) 1(2)] ch1(3) [OF 1(1) 2(2)]
          ch0(1) [OF 1(1) 1(2)] ch1(1) [OF 2(1) 2(2)] 1(4) 2(4)
        by (simp add: ts_digraph_def C)
      with e ch0(2) [OF 2(1) 1(2)] ch1(2) [OF 1(1) 2(2)] show ?thesis by blast
    qed
  next
    case vert: False
    show ?thesis
    proof (cases "c1 = c2")
      case same: True
      have "ts_digraph C a b = Inr [a, b]"
        using vert same 1(3) 2(3) by (simp add: ts_digraph_def C)
      then show ?thesis using a b by auto
    next
      case False
      let ?x = "pb_contents K0 ! (r1 * L + c2)" and ?y = "pb_contents K1 ! (r2 * L + c1)"
      have e: "ts_digraph C a b = Inr [?x, ?y]"
        using vert False 1(3) 2(3) ch0(1) [OF 1(1) 2(2)] ch1(1) [OF 2(1) 1(2)]
        by (simp add: ts_digraph_def C)
      have "ts_digraph C ?x ?y = Inr [a, b]"
        using vert False ch0(3) [OF 1(1) 2(2)] ch1(3) [OF 2(1) 1(2)]
          ch0(1) [OF 1(1) 1(2)] ch1(1) [OF 2(1) 2(2)] 1(4) 2(4)
        by (simp add: ts_digraph_def C)
      with e ch0(2) [OF 1(1) 2(2)] ch1(2) [OF 2(1) 1(2)] show ?thesis by blast
    qed
  qed
qed


lemma ts_pairs_snoc: "even (length xs) \<Longrightarrow> ts_pairs C (xs @ [x]) = ts_pairs C xs"
  by (induction C xs rule: ts_pairs.induct) simp_all

lemma ts_pairs_invol:
  assumes d0: "distinct (pb_contents K0)" and l0: "length (pb_contents K0) = L * L"
    and d1: "distinct (pb_contents K1)" and l1: "length (pb_contents K1) = L * L"
    and s0: "pb_side K0 = L" and s1: "pb_side K1 = L"
    and C: "ts_keys C = (K0, K1)"
    and eq: "set (pb_contents K0) = set (pb_contents K1)"
  shows "set T \<subseteq> set (pb_contents K0) \<Longrightarrow>
         \<exists>T'. ts_pairs C T = Inr T' \<and> length T' = 2 * (length T div 2) \<and>
              ts_pairs C T' = Inr (take (2 * (length T div 2)) T)"
proof (induction T rule: induct_list012)
  case 1
  then show ?case by simp
next
  case (2 v)
  then show ?case by simp
next
  case (3 a b rest)
  from "3.prems" have a: "a \<in> set (pb_contents K0)" and b: "b \<in> set (pb_contents K1)"
    and rest: "set rest \<subseteq> set (pb_contents K0)"
    using eq by auto
  from ts_digraph_invol [OF d0 l0 d1 l1 s0 s1 C a b] obtain x y where
    xy: "ts_digraph C a b = Inr [x, y]" "ts_digraph C x y = Inr [a, b]" by blast
  from "3.IH"(1) [OF rest] obtain R where
    R: "ts_pairs C rest = Inr R" "length R = 2 * (length rest div 2)"
       "ts_pairs C R = Inr (take (2 * (length rest div 2)) rest)" by blast
  have 1: "ts_pairs C (a # b # rest) = Inr (x # y # R)"
    by (simp add: xy(1) R(1))
  have 2: "length (x # y # R) = 2 * (length (a # b # rest) div 2)"
    by (simp add: R(2))
  have 3: "ts_pairs C (x # y # R) = Inr (take (2 * (length (a # b # rest) div 2)) (a # b # rest))"
    by (simp add: xy(2) R(3))
  from 1 2 3 show ?case by blast
qed

lemma TwoSquare_twice:
  assumes K0: "Polybius_init seed0 alphabet0 = Inr K0"
    and K1: "Polybius_init seed1 alphabet1 = Inr K1"
    and C: "TwoSquare_init (K0, K1) horizontal = Inr C"
    and T: "set T \<subseteq> set (pb_contents K0)"
  shows "\<exists>T'. TwoSquare_encrypt C T = Inr T' \<and> TwoSquare_encrypt C T' = Inr T"
proof -
  note p0 = Polybius_init_Inr(1,2) [OF K0] and p1 = Polybius_init_Inr(1,2) [OF K1]
  from C have eq: "set (pb_contents K0) = set (pb_contents K1)"
    and keys: "ts_keys C = (K0, K1)"
    by (auto simp: TwoSquare_init_def split: if_splits)
  have "length (pb_contents K0) = length (pb_contents K1)"
    using distinct_card [OF p0(1)] distinct_card [OF p1(1)] eq by simp
  then have "pb_side K0 * pb_side K0 = pb_side K1 * pb_side K1"
    using p0(2) p1(2) by simp
  then have "(pb_side K1)\<^sup>2 = (pb_side K0)\<^sup>2"
    by (simp add: power2_eq_square)
  then have side: "pb_side K1 = pb_side K0"
    by (rule power2_eq_imp_eq) simp_all
  from ts_pairs_invol [OF p0(1) p0(2) p1(1) _ refl side keys eq T] p1(2) side
  obtain R where R: "ts_pairs C T = Inr R" "length R = 2 * (length T div 2)"
      "ts_pairs C R = Inr (take (2 * (length T div 2)) T)" by auto
  show ?thesis
  proof (cases "even (length T)")
    case True
    then have "2 * (length T div 2) = length T" by simp
    with R True show ?thesis
      by (simp add: TwoSquare_encrypt_def Let_def)
  next
    case False
    then have odd: "length T mod 2 = 1" and ne: "T \<noteq> []" by (auto simp: odd_iff_mod_2_eq_one)
    have len: "2 * (length T div 2) = length T - 1"
      using False by presburger
    have e1: "TwoSquare_encrypt C T = Inr (R @ [last T])"
      using R(1) odd by (simp add: TwoSquare_encrypt_def Let_def)
    have evR: "even (length R)" using R(2) by simp
    have "ts_pairs C (R @ [last T]) = Inr (butlast T)"
      using ts_pairs_snoc [OF evR] R(3) len by (simp add: butlast_conv_take)
    moreover have "length (R @ [last T]) mod 2 = 1"
    proof -
      have "length (R @ [last T]) = Suc (length R)" by simp
      with evR show ?thesis by presburger
    qed
    ultimately have "TwoSquare_encrypt C (R @ [last T]) = Inr T"
      using ne by (simp add: TwoSquare_encrypt_def Let_def)
    with e1 show ?thesis by blast
  qed
qed


text \<open>
  Claim C2. Each of the reciprocal ciphers returns the text when applied twice:
  Atbash over an alphabet whose lowercase letters are distinct, on every text over that
  alphabet; Rot13 and the Kama Sutra cipher with a key that is a permutation of the 26
  lowercase letters, on every text of lowercase letters; and the two-square cipher, in
  either arrangement, with two coordinate squares that share an alphabet, on every text
  over that alphabet (of even or odd length).
\<close>

theorem reciprocal_ciphers:
  "(distinct (map py_lower alphabet) \<and> set T \<subseteq> set (map py_lower alphabet) \<longrightarrow>
      Mono_encrypt (Atbash_init alphabet) (Mono_encrypt (Atbash_init alphabet) T) = T) \<and>
   (set T \<subseteq> set ascii_lowercase \<longrightarrow>
      Mono_encrypt Rot13_init (Mono_encrypt Rot13_init T) = T) \<and>
   (distinct key \<and> set key = set ascii_lowercase \<and> set T \<subseteq> set ascii_lowercase \<longrightarrow>
      Mono_encrypt (KamaSutra_init key) (Mono_encrypt (KamaSutra_init key) T) = T) \<and>
   (Polybius_init seed0 alphabet0 = Inr K0 \<and> Polybius_init seed1 alphabet1 = Inr K1 \<and>
    TwoSquare_init (K0, K1) horizontal = Inr C \<and> set T \<subseteq> set (pb_contents K0) \<longrightarrow>
      (\<exists>T'. TwoSquare_encrypt C T = Inr T' \<and> TwoSquare_encrypt C T' = Inr T))"
  using Atbash_twice [of alphabet T] Rot13_twice [of T] KamaSutra_twice [of key T]
    TwoSquare_twice [of seed0 alphabet0 K0 seed1 alphabet1 K1 horizontal C T]
  by blast

theorem reciprocal_ciphers_witness:
  "distinct (map py_lower ascii_lowercase) \<and> set ''hello'' \<subseteq> set (map py_lower ascii_lowercase) \<and>
   Mono_encrypt (Atbash_init ascii_lowercase) (Mono_encrypt (Atbash_init ascii_lowercase) ''hello'')
     = ''hello'' \<and>
   set ''hello'' \<subseteq> set ascii_lowercase \<and>
   Mono_encrypt Rot13_init (Mono_encrypt Rot13_init ''hello'') = ''hello'' \<and>
   distinct ''vqajflymsbckuhzdxtenorpwig'' \<and>
   set ''vqajflymsbckuhzdxtenorpwig'' = set ascii_lowercase \<and>
   Mono_encrypt (KamaSutra_init ''vqajflymsbckuhzdxtenorpwig'')
     (Mono_encrypt (KamaSutra_init ''vqajflymsbckuhzdxtenorpwig'') ''hello'') = ''hello'' \<and>
   Polybius_init ''example'' ''abcdefghiklmnopqrstuvwxyz''
     = Inr \<lparr>pb_contents = ''examplbcdfghiknoqrstuvwyz'', pb_side = 5\<rparr> \<and>
   Polybius_init ''keyword'' ''abcdefghiklmnopqrstuvwxyz''
     = Inr \<lparr>pb_contents = ''keywordabcfghilmnpqstuvxz'', pb_side = 5\<rparr> \<and>
   TwoSquare_init (\<lparr>pb_contents = ''examplbcdfghiknoqrstuvwyz'', pb_side = 5\<rparr>,
                   \<lparr>pb_contents = ''keywordabcfghilmnpqstuvxz'', pb_side = 5\<rparr>) False
     = Inr \<lparr>ts_keys = (\<lparr>pb_contents = ''examplbcdfghiknoqrstuvwyz'', pb_side = 5\<rparr>, \<lparr>pb_contents = ''keywordabcfghilmnpqstuvxz'', pb_side = 5\<rparr>), ts_horizontal = False\<rparr> \<and>
   set ''help'' \<subseteq> set (pb_contents \<lparr>pb_contents = ''examplbcdfghiknoqrstuvwyz'', pb_side = 5\<rparr>) \<and>
   (\<exists>T'. TwoSquare_encrypt \<lparr>ts_keys = (\<lparr>pb_contents = ''examplbcdfghiknoqrstuvwyz'', pb_side = 5\<rparr>, \<lparr>pb_contents = ''keywordabcfghilmnpqstuvxz'', pb_side = 5\<rparr>), ts_horizontal = False\<rparr> ''help'' = Inr T' \<and>
         TwoSquare_encrypt \<lparr>ts_keys = (\<lparr>pb_contents = ''examplbcdfghiknoqrstuvwyz'', pb_side = 5\<rparr>, \<lparr>pb_contents = ''keywordabcfghilmnpqstuvxz'', pb_side = 5\<rparr>), ts_horizontal = False\<rparr> T' = Inr ''help'')"
proof -
  have a: "distinct (map py_lower ascii_lowercase) \<and>
           set ''hello'' \<subseteq> set (map py_lower ascii_lowercase)"
    by code_simp
  have r: "set ''hello'' \<subseteq> set ascii_lowercase"
    by code_simp
  have k: "distinct ''vqajflymsbckuhzdxtenorpwig'' \<and>
           set ''vqajflymsbckuhzdxtenorpwig'' = set ascii_lowercase"
    by code_simp
  have t0: "Polybius_init ''example'' ''abcdefghiklmnopqrstuvwxyz'' = Inr \<lparr>pb_contents = ''examplbcdfghiknoqrstuvwyz'', pb_side = 5\<rparr>"
    by code_simp
  have t1: "Polybius_init ''keyword'' ''abcdefghiklmnopqrstuvwxyz'' = Inr \<lparr>pb_contents = ''keywordabcfghilmnpqstuvxz'', pb_side = 5\<rparr>"
    by code_simp
  have t2: "TwoSquare_init (\<lparr>pb_contents = ''examplbcdfghiknoqrstuvwyz'', pb_side = 5\<rparr>, \<lparr>pb_contents = ''keywordabcfghilmnpqstuvxz'', pb_side = 5\<rparr>) False = Inr \<lparr>ts_keys = (\<lparr>pb_contents = ''examplbcdfghiknoqrstuvwyz'', pb_side = 5\<rparr>, \<lparr>pb_contents = ''keywordabcfghilmnpqstuvxz'', pb_side = 5\<rparr>), ts_horizontal = False\<rparr>"
    by code_simp
  have t3: "set ''help'' \<subseteq> set (pb_contents \<lparr>pb_contents = ''examplbcdfghiknoqrstuvwyz'', pb_side = 5\<rparr>)"
    by code_simp
  from reciprocal_ciphers [of ascii_lowercase "''hello''" "''vqajflymsbckuhzdxtenorpwig''"] a r k
  have 1: "Mono_encrypt (Atbash_init ascii_lowercase)
             (Mono_encrypt (Atbash_init ascii_lowercase) ''hello'') = ''hello''"
    and 2: "Mono_encrypt Rot13_init (Mono_encrypt Rot13_init ''hello'') = ''hello''"
    and 3: "Mono_encrypt (KamaSutra_init ''vqajflymsbckuhzdxtenorpwig'')
              (Mono_encrypt (KamaSutra_init ''vqajflymsbckuhzdxtenorpwig'') ''hello'') = ''hello''"
    by blast+
  from reciprocal_ciphers [of _ "''help''" _ "''example''" "''abcdefghiklmnopqrstuvwxyz''"
      "\<lparr>pb_contents = ''examplbcdfghiknoqrstuvwyz'', pb_side = 5\<rparr>" "''keyword''" "''abcdefghiklmnopqrstuvwxyz''" "\<lparr>pb_contents = ''keywordabcfghilmnpqstuvxz'', pb_side = 5\<rparr>" False "\<lparr>ts_keys = (\<lparr>pb_contents = ''examplbcdfghiknoqrstuvwyz'', pb_side = 5\<rparr>, \<lparr>pb_contents = ''keywordabcfghilmnpqstuvxz'', pb_side = 5\<rparr>), ts_horizontal = False\<rparr>"] t0 t1 t2 t3
  have 4: "\<exists>T'. TwoSquare_encrypt \<lparr>ts_keys = (\<lparr>pb_contents = ''examplbcdfghiknoqrstuvwyz'', pb_side = 5\<rparr>, \<lparr>pb_contents = ''keywordabcfghilmnpqstuvxz'', pb_side = 5\<rparr>), ts_horizontal = False\<rparr> ''help'' = Inr T' \<and> TwoSquare_encrypt \<lparr>ts_keys = (\<lparr>pb_contents = ''examplbcdfghiknoqrstuvwyz'', pb_side = 5\<rparr>, \<lparr>pb_contents = ''keywordabcfghilmnpqstuvxz'', pb_side = 5\<rparr>), ts_horizontal = False\<rparr> T' = Inr ''help''"
    by blast
  from a r k t0 t1 t2 t3 1 2 3 4 show ?thesis by blast
qed


section \<open>The Playfair cipher: a constructed cipher\<close>

lemma py_in_str_single: "py_in_str [b] s = (b \<in> set s)"
proof
  assume "py_in_str [b] s"
  then obtain i where "take (Suc 0) (drop i s) = [b]"
    by (auto simp: py_in_str_def list_ex_iff)
  then have "b \<in> set (take (Suc 0) (drop i s))" by simp
  then show "b \<in> set s" by (meson in_set_dropD in_set_takeD)
next
  assume "b \<in> set s"
  then obtain i where i: "i < length s" "s ! i = b" by (auto simp: in_set_conv_nth)
  then have "drop i s = b # drop (Suc i) s"
    using Cons_nth_drop_Suc [of i s] by simp
  then have "take (Suc 0) (drop i s) = [b]" by simp
  with i(1) show "py_in_str [b] s"
    by (auto simp: py_in_str_def list_ex_iff intro!: bexI [of _ i])
qed

lemma side_25: "(s::nat) * s = 25 \<Longrightarrow> s = 5"
proof -
  assume "s * s = 25"
  then have "s\<^sup>2 = 5\<^sup>2" by (simp add: power2_eq_square)
  then show "s = 5" by (rule power2_eq_imp_eq) simp_all
qed

lemma Playfair_init_Inr:
  assumes "Playfair_init key breaker padding omitted = Inr P"
  shows "length (pf_alphabet P) = 25"
    and "set (pf_alphabet P) \<subseteq> set ascii_lowercase"
    and "\<And>c. c \<in> set (pf_alphabet P) \<Longrightarrow> omit P c = [c]"
    and "pf_breaker P \<in> set (pf_alphabet P)"
    and "pf_padding P \<in> set (pf_alphabet P)"
    and "set (pb_contents (pf_polybius P)) = set (pf_alphabet P)"
    and "distinct (pb_contents (pf_polybius P))"
    and "length (pb_contents (pf_polybius P)) = pb_side (pf_polybius P) * pb_side (pf_polybius P)"
    and "pb_side (pf_polybius P) = 5"
proof -
  define om where "om = py_dict (map (\<lambda>kv. (map py_lower (fst kv), map py_lower (snd kv))) omitted)"
  define al where "al = filter (\<lambda>c. [c] \<notin> set (map fst om)) ascii_lowercase"
  define key' where "key' = filter (\<lambda>c. c \<in> set al) (map py_lower key)"
  from assms have len: "length al = 25"
    and br: "length breaker = 1" "py_in_str breaker al"
    and pd: "length padding = 1" "py_in_str padding al"
    and rest: "sum_bind (Polybius_init key' al)
          (\<lambda>square. Inr \<lparr>pf_omitted = om, pf_alphabet = al, pf_breaker = hd breaker,
                          pf_padding = hd padding, pf_key = key, pf_polybius = square\<rparr>) = Inr P"
    unfolding Playfair_init_def om_def [symmetric] Let_def al_def [symmetric] key'_def [symmetric]
    by (auto split: if_splits)
  from rest obtain K where K: "Polybius_init key' al = Inr K"
    and P: "P = \<lparr>pf_omitted = om, pf_alphabet = al, pf_breaker = hd breaker,
                  pf_padding = hd padding, pf_key = key, pf_polybius = K\<rparr>"
    by (cases "Polybius_init key' al") auto
  show "length (pf_alphabet P) = 25" by (simp add: P len)
  show "set (pf_alphabet P) \<subseteq> set ascii_lowercase" by (auto simp: P al_def)
  show "omit P c = [c]" if "c \<in> set (pf_alphabet P)" for c
  proof -
    from that have "[c] \<notin> set (map fst om)" by (simp add: P al_def)
    then have "map_of om [c] = None" by (simp add: map_of_eq_None_iff)
    then show ?thesis by (simp add: omit_def P)
  qed
  from br obtain b where b: "breaker = [b]" by (cases breaker) auto
  with br(2) show "pf_breaker P \<in> set (pf_alphabet P)"
    by (simp add: P py_in_str_single)
  from pd obtain p where p: "padding = [p]" by (cases padding) auto
  with pd(2) show "pf_padding P \<in> set (pf_alphabet P)"
    by (simp add: P py_in_str_single)
  note pk = Polybius_init_Inr [OF K]
  have "set (pb_contents K) = set key' \<union> set al" by (simp add: pk(3) dedupe_set)
  also have "\<dots> = set al" by (auto simp: key'_def)
  finally have sets: "set (pb_contents K) = set al" .
  then show "set (pb_contents (pf_polybius P)) = set (pf_alphabet P)" by (simp add: P)
  show "distinct (pb_contents (pf_polybius P))" by (simp add: P pk(1))
  show sq: "length (pb_contents (pf_polybius P)) = pb_side (pf_polybius P) * pb_side (pf_polybius P)"
    by (simp add: P pk(2))
  have "distinct ascii_lowercase" by (simp add: ascii_lowercase_def)
  then have "distinct al" unfolding al_def by (rule distinct_filter)
  then have "card (set al) = 25" using len by (simp add: distinct_card)
  then have "length (pb_contents K) = 25"
    using distinct_card [OF pk(1)] sets by simp
  then show "pb_side (pf_polybius P) = 5"
    using sq by (simp add: P side_25)
qed


section \<open>The Playfair cipher: decryption of ill-formed ciphertext\<close>

lemma Polybius_char_total:
  assumes "0 \<le> r" "r < int (pb_side K)" "0 \<le> k" "k < int (pb_side K)"
  shows "\<exists>x. Polybius_char K (r, k) = Inr x"
  using assms by (simp add: Polybius_char_def Let_def)

lemma Playfair_polyb_ok:
  assumes init: "Playfair_init key breaker padding omitted = Inr P"
    and x: "x \<in> set (pf_alphabet P)" and y: "y \<in> set (pf_alphabet P)"
  shows "\<exists>u v. Playfair_polyb P ([x], [y]) d = Inr [u, v]"
proof -
  note pf = Playfair_init_Inr [OF init]
  let ?K = "pf_polybius P"
  from Polybius_coords_ok [of ?K x] pf(6,8,9) x obtain r1 c1 where
    1: "r1 < 5" "c1 < 5" "Polybius_coords ?K [x] = Inr (int r1, int c1)" by auto
  from Polybius_coords_ok [of ?K y] pf(6,8,9) y obtain r2 c2 where
    2: "r2 < 5" "c2 < 5" "Polybius_coords ?K [y] = Inr (int r2, int c2)" by auto
  have ch: "\<exists>u. Polybius_char ?K (r, k) = Inr u" if "0 \<le> r" "r < 5" "0 \<le> k" "k < 5" for r k
    using Polybius_char_total [of r ?K k] that pf(9) by simp
  have two: "\<exists>u v. sum_bind (Polybius_char ?K (r, k)) (\<lambda>x.
                sum_bind (Polybius_char ?K (r', k')) (\<lambda>y. Inr [x, y])) = Inr [u, v]"
    if "0 \<le> r" "r < 5" "0 \<le> k" "k < 5" "0 \<le> r'" "r' < 5" "0 \<le> k'" "k' < 5" for r k r' k'
  proof -
    from ch [OF that(1-4)] obtain u where u: "Polybius_char ?K (r, k) = Inr u" by blast
    from ch [OF that(5-8)] obtain v where v: "Polybius_char ?K (r', k') = Inr v" by blast
    show ?thesis by (simp add: u v)
  qed
  have rng: "0 \<le> int r1" "int r1 < 5" "0 \<le> int c1" "int c1 < 5"
            "0 \<le> int r2" "int r2 < 5" "0 \<le> int c2" "int c2 < 5"
    using 1 2 by simp_all
  have m: "0 \<le> z mod 5" "z mod 5 < 5" for z :: int by simp_all
  show ?thesis
    unfolding Playfair_polyb_def fst_conv snd_conv 1(3) 2(3) sum_bind.simps prod.case
    using two rng m by (auto simp: Let_def)
qed

lemma join_polyb_yield:
  "join_polyb P d (yield p g) =
     sum_bind (Playfair_polyb P p d) (\<lambda>out.
     sum_bind (join_polyb P d g) (\<lambda>outs. Inr (out @ outs)))"
proof (cases g)
  case (Pair ps e)
  show ?thesis
  proof (cases "Playfair_polyb P p d")
    case (Inl a)
    then show ?thesis by (simp add: Pair join_polyb_def)
  next
    case (Inr out)
    show ?thesis
    proof (cases "collect (map (\<lambda>d'. Playfair_polyb P d' d) ps)")
      case (Inl a)
      then show ?thesis by (simp add: Pair join_polyb_def Inr)
    next
      case outs: (Inr outs)
      then show ?thesis by (cases e) (simp_all add: Pair join_polyb_def Inr)
    qed
  qed
qed

lemma join_polyb_error:
  "snd g = Some e \<Longrightarrow> \<exists>e'. join_polyb P d g = Inl e'"
  by (cases "collect (map (\<lambda>d'. Playfair_polyb P d' d) (fst g))") (simp_all add: join_polyb_def)

lemma cipher_zip_identical:
  assumes "2 * i + 1 < length xs" "xs ! (2 * i) = xs ! (2 * i + 1)"
  shows "snd (cipher_zip xs) = Some ValueError"
  using assms
proof (induction xs arbitrary: i rule: induct_list012)
  case 1
  then show ?case by simp
next
  case (2 x)
  then show ?case by simp
next
  case (3 a b rest)
  show ?case
  proof (cases "a = b")
    case True
    then show ?thesis by simp
  next
    case False
    then obtain j where j: "i = Suc j" using "3.prems" by (cases i) auto
    have "snd (cipher_zip rest) = Some ValueError"
      using "3.IH"(1) [of j] "3.prems" j by simp
    then show ?thesis using False by (cases "cipher_zip rest") simp
  qed
qed

lemma cipher_zip_ok:
  assumes init: "Playfair_init key breaker padding omitted = Inr P"
  shows "even (length t) \<Longrightarrow> set t \<subseteq> set (pf_alphabet P) \<Longrightarrow>
         (\<forall>i. 2 * i + 1 < length t \<longrightarrow> t ! (2 * i) \<noteq> t ! (2 * i + 1)) \<Longrightarrow>
         \<exists>p. join_polyb P d (cipher_zip (map (\<lambda>c. [c]) t)) = Inr p \<and> length p = length t"
proof (induction t rule: induct_list012)
  case 1
  then show ?case by (simp add: join_polyb_def)
next
  case (2 x)
  then show ?case by simp
next
  case (3 a b rest)
  have ab: "a \<noteq> b" using "3.prems"(3) [rule_format, of 0] by simp
  have nxt: "\<forall>i. 2 * i + 1 < length rest \<longrightarrow> rest ! (2 * i) \<noteq> rest ! (2 * i + 1)"
  proof (intro allI impI)
    fix i assume "2 * i + 1 < length rest"
    then show "rest ! (2 * i) \<noteq> rest ! (2 * i + 1)"
      using "3.prems"(3) [rule_format, of "Suc i"] by simp
  qed
  from "3.IH"(1) [OF _ _ nxt] "3.prems"(1,2) obtain p where
    p: "join_polyb P d (cipher_zip (map (\<lambda>c. [c]) rest)) = Inr p" "length p = length rest"
    by auto
  from Playfair_polyb_ok [OF init, of a b d] "3.prems"(2) obtain u v where
    uv: "Playfair_polyb P ([a], [b]) d = Inr [u, v]" by auto
  have "join_polyb P d (cipher_zip (map (\<lambda>c. [c]) (a # b # rest))) = Inr ([u, v] @ p)"
    using ab by (simp add: join_polyb_yield uv p(1))
  then show ?case using p(2) by simp
qed

text \<open>
  Claim C6. For a constructed Playfair cipher, \<open>decrypt\<close> raises \<open>ValueError\<close> on every
  ciphertext of odd length, and raises on every ciphertext in which the two letters of a
  digraph (the characters at positions \<open>2i\<close> and \<open>2i + 1\<close>) are identical after the
  omitted-letter mapping. On every other ciphertext over the cipher's 25-letter alphabet
  (even length, no digraph of two identical letters) it returns a plaintext, of the length
  of the ciphertext.
\<close>

theorem Playfair_decrypt_errors:
  assumes "Playfair_init key breaker padding omitted = Inr P"
  shows "(odd (length ct) \<longrightarrow> Playfair_decrypt P ct = Inl ValueError) \<and>
         ((\<exists>i. 2 * i + 1 < length ct \<and> omit P (ct ! (2 * i)) = omit P (ct ! (2 * i + 1))) \<longrightarrow>
            (\<exists>e. Playfair_decrypt P ct = Inl e)) \<and>
         (even (length ct) \<and> set ct \<subseteq> set (pf_alphabet P) \<and>
          (\<forall>i. 2 * i + 1 < length ct \<longrightarrow> ct ! (2 * i) \<noteq> ct ! (2 * i + 1)) \<longrightarrow>
            (\<exists>plain. Playfair_decrypt P ct = Inr plain \<and> length plain = length ct))"
proof (intro conjI impI)
  assume "odd (length ct)"
  then have "length ct mod 2 \<noteq> 0" by presburger
  then show "Playfair_decrypt P ct = Inl ValueError"
    by (simp add: Playfair_decrypt_def Playfair_cipher_pairs_def join_polyb_def)
next
  assume "\<exists>i. 2 * i + 1 < length ct \<and> omit P (ct ! (2 * i)) = omit P (ct ! (2 * i + 1))"
  then obtain i where i: "2 * i + 1 < length ct"
    "omit P (ct ! (2 * i)) = omit P (ct ! (2 * i + 1))" by blast
  have "snd (Playfair_cipher_pairs P ct) = Some ValueError"
  proof (cases "length ct mod 2 \<noteq> 0")
    case True
    then show ?thesis by (simp add: Playfair_cipher_pairs_def)
  next
    case False
    have "snd (cipher_zip (map (omit P) ct)) = Some ValueError"
      by (rule cipher_zip_identical [of i]) (use i in simp_all)
    with False show ?thesis by (simp add: Playfair_cipher_pairs_def)
  qed
  then show "\<exists>e. Playfair_decrypt P ct = Inl e"
    unfolding Playfair_decrypt_def by (rule join_polyb_error)
next
  assume h: "even (length ct) \<and> set ct \<subseteq> set (pf_alphabet P) \<and>
          (\<forall>i. 2 * i + 1 < length ct \<longrightarrow> ct ! (2 * i) \<noteq> ct ! (2 * i + 1))"
  have me: "map (omit P) ct = map (\<lambda>c. [c]) ct"
    using h Playfair_init_Inr(3) [OF assms] by (intro map_cong) auto
  have ev: "length ct mod 2 = 0" using h by presburger
  have "Playfair_decrypt P ct = join_polyb P True (cipher_zip (map (\<lambda>c. [c]) ct))"
    unfolding Playfair_decrypt_def Playfair_cipher_pairs_def me using ev by simp
  with cipher_zip_ok [OF assms, of ct True] h
  show "\<exists>plain. Playfair_decrypt P ct = Inr plain \<and> length plain = length ct"
    by simp
qed


theorem Playfair_decrypt_errors_witness:
  "Playfair_init ''playfair example'' ''x'' ''z'' [(''j'', ''i'')] = Inr \<lparr>pf_omitted = [(''j'', ''i'')], pf_alphabet = ''abcdefghiklmnopqrstuvwxyz'', pf_breaker = CHR ''x'', pf_padding = CHR ''z'', pf_key = ''playfair example'', pf_polybius = \<lparr>pb_contents = ''playfirexmbcdghknoqstuvwz'', pb_side = 5\<rparr>\<rparr> \<and>
   odd (length ''abc'') \<and> Playfair_decrypt \<lparr>pf_omitted = [(''j'', ''i'')], pf_alphabet = ''abcdefghiklmnopqrstuvwxyz'', pf_breaker = CHR ''x'', pf_padding = CHR ''z'', pf_key = ''playfair example'', pf_polybius = \<lparr>pb_contents = ''playfirexmbcdghknoqstuvwz'', pb_side = 5\<rparr>\<rparr> ''abc'' = Inl ValueError \<and>
   2 * 1 + 1 < length ''abij'' \<and>
   omit \<lparr>pf_omitted = [(''j'', ''i'')], pf_alphabet = ''abcdefghiklmnopqrstuvwxyz'', pf_breaker = CHR ''x'', pf_padding = CHR ''z'', pf_key = ''playfair example'', pf_polybius = \<lparr>pb_contents = ''playfirexmbcdghknoqstuvwz'', pb_side = 5\<rparr>\<rparr> (''abij'' ! (2 * 1)) = omit \<lparr>pf_omitted = [(''j'', ''i'')], pf_alphabet = ''abcdefghiklmnopqrstuvwxyz'', pf_breaker = CHR ''x'', pf_padding = CHR ''z'', pf_key = ''playfair example'', pf_polybius = \<lparr>pb_contents = ''playfirexmbcdghknoqstuvwz'', pb_side = 5\<rparr>\<rparr> (''abij'' ! (2 * 1 + 1)) \<and>
   (\<exists>e. Playfair_decrypt \<lparr>pf_omitted = [(''j'', ''i'')], pf_alphabet = ''abcdefghiklmnopqrstuvwxyz'', pf_breaker = CHR ''x'', pf_padding = CHR ''z'', pf_key = ''playfair example'', pf_polybius = \<lparr>pb_contents = ''playfirexmbcdghknoqstuvwz'', pb_side = 5\<rparr>\<rparr> ''abij'' = Inl e) \<and>
   even (length ''bmod'') \<and> set ''bmod'' \<subseteq> set (pf_alphabet \<lparr>pf_omitted = [(''j'', ''i'')], pf_alphabet = ''abcdefghiklmnopqrstuvwxyz'', pf_breaker = CHR ''x'', pf_padding = CHR ''z'', pf_key = ''playfair example'', pf_polybius = \<lparr>pb_contents = ''playfirexmbcdghknoqstuvwz'', pb_side = 5\<rparr>\<rparr>) \<and>
   (\<exists>plain. Playfair_decrypt \<lparr>pf_omitted = [(''j'', ''i'')], pf_alphabet = ''abcdefghiklmnopqrstuvwxyz'', pf_breaker = CHR ''x'', pf_padding = CHR ''z'', pf_key = ''playfair example'', pf_polybius = \<lparr>pb_contents = ''playfirexmbcdghknoqstuvwz'', pb_side = 5\<rparr>\<rparr> ''bmod'' = Inr plain \<and> length plain = length ''bmod'')"
proof -
  have init: "Playfair_init ''playfair example'' ''x'' ''z'' [(''j'', ''i'')] = Inr \<lparr>pf_omitted = [(''j'', ''i'')], pf_alphabet = ''abcdefghiklmnopqrstuvwxyz'', pf_breaker = CHR ''x'', pf_padding = CHR ''z'', pf_key = ''playfair example'', pf_polybius = \<lparr>pb_contents = ''playfirexmbcdghknoqstuvwz'', pb_side = 5\<rparr>\<rparr>"
    by code_simp
  have h1: "odd (length ''abc'')" by simp
  have h2: "2 * 1 + 1 < length ''abij'' \<and>
            omit \<lparr>pf_omitted = [(''j'', ''i'')], pf_alphabet = ''abcdefghiklmnopqrstuvwxyz'', pf_breaker = CHR ''x'', pf_padding = CHR ''z'', pf_key = ''playfair example'', pf_polybius = \<lparr>pb_contents = ''playfirexmbcdghknoqstuvwz'', pb_side = 5\<rparr>\<rparr> (''abij'' ! (2 * 1)) = omit \<lparr>pf_omitted = [(''j'', ''i'')], pf_alphabet = ''abcdefghiklmnopqrstuvwxyz'', pf_breaker = CHR ''x'', pf_padding = CHR ''z'', pf_key = ''playfair example'', pf_polybius = \<lparr>pb_contents = ''playfirexmbcdghknoqstuvwz'', pb_side = 5\<rparr>\<rparr> (''abij'' ! (2 * 1 + 1))"
    by code_simp
  have h3: "even (length ''bmod'')" "set ''bmod'' \<subseteq> set (pf_alphabet \<lparr>pf_omitted = [(''j'', ''i'')], pf_alphabet = ''abcdefghiklmnopqrstuvwxyz'', pf_breaker = CHR ''x'', pf_padding = CHR ''z'', pf_key = ''playfair example'', pf_polybius = \<lparr>pb_contents = ''playfirexmbcdghknoqstuvwz'', pb_side = 5\<rparr>\<rparr>)"
    by code_simp+
  have h4: "\<forall>i. 2 * i + 1 < length ''bmod'' \<longrightarrow> ''bmod'' ! (2 * i) \<noteq> ''bmod'' ! (2 * i + 1)"
  proof (intro allI impI)
    fix i :: nat assume "2 * i + 1 < length ''bmod''"
    then have "i = 0 \<or> i = 1" by auto
    then show "''bmod'' ! (2 * i) \<noteq> ''bmod'' ! (2 * i + 1)" by auto
  qed
  from Playfair_decrypt_errors [OF init, of "''abc''"] h1
  have 1: "Playfair_decrypt \<lparr>pf_omitted = [(''j'', ''i'')], pf_alphabet = ''abcdefghiklmnopqrstuvwxyz'', pf_breaker = CHR ''x'', pf_padding = CHR ''z'', pf_key = ''playfair example'', pf_polybius = \<lparr>pb_contents = ''playfirexmbcdghknoqstuvwz'', pb_side = 5\<rparr>\<rparr> ''abc'' = Inl ValueError" by blast
  from Playfair_decrypt_errors [OF init, of "''abij''"] h2
  have 2: "\<exists>e. Playfair_decrypt \<lparr>pf_omitted = [(''j'', ''i'')], pf_alphabet = ''abcdefghiklmnopqrstuvwxyz'', pf_breaker = CHR ''x'', pf_padding = CHR ''z'', pf_key = ''playfair example'', pf_polybius = \<lparr>pb_contents = ''playfirexmbcdghknoqstuvwz'', pb_side = 5\<rparr>\<rparr> ''abij'' = Inl e" by blast
  from Playfair_decrypt_errors [OF init, of "''bmod''"] h3 h4
  have 3: "\<exists>plain. Playfair_decrypt \<lparr>pf_omitted = [(''j'', ''i'')], pf_alphabet = ''abcdefghiklmnopqrstuvwxyz'', pf_breaker = CHR ''x'', pf_padding = CHR ''z'', pf_key = ''playfair example'', pf_polybius = \<lparr>pb_contents = ''playfirexmbcdghknoqstuvwz'', pb_side = 5\<rparr>\<rparr> ''bmod'' = Inr plain \<and> length plain = length ''bmod''"
    by blast
  from init h1 h2 h3 1 2 3 show ?thesis by blast
qed


section \<open>The Playfair cipher: pairing of the plaintext\<close>

lemma lower_lowercase: "c \<in> set ascii_lowercase \<Longrightarrow> py_lower c = c"
proof -
  have "\<forall>c\<in>set ascii_lowercase. py_lower c = c" by code_simp
  then show "c \<in> set ascii_lowercase \<Longrightarrow> py_lower c = c" by blast
qed

lemma plain_letters_body:
  assumes "Playfair_init key breaker padding omitted = Inr P"
  shows "plain_letters P text = plain_body P text @ [pf_padding P]"
proof -
  note pf = Playfair_init_Inr [OF assms]
  have "py_lower (pf_padding P) = pf_padding P"
    using pf(2,5) by (intro lower_lowercase) auto
  then show ?thesis
    using pf(5) by (simp add: plain_letters_def plain_body_def)
qed

lemma plain_zip_spec:
  "(L = [] \<or> last L \<noteq> pad) \<Longrightarrow>
     plain_zip br (L @ [pad]) = (as_strings (spec_digraphs br pad L), None) \<and>
     (L \<noteq> [] \<longrightarrow> plain_run br (hd L) (tl L @ [pad]) = (as_strings (spec_digraphs br pad L), None))"
proof (induction br pad L rule: spec_digraphs.induct)
  case (1 br pad)
  then show ?case by (simp add: as_strings_def)
next
  case (2 br pad a)
  then show ?case by (simp add: as_strings_def)
next
  case (3 br pad a b rest)
  show ?case
  proof (cases "a = b")
    case True
    have "b # rest = [] \<or> last (b # rest) \<noteq> pad" using "3.prems" by simp
    from "3.IH"(1) [OF True this]
    have "plain_run br b (rest @ [pad]) = (as_strings (spec_digraphs br pad (b # rest)), None)"
      by simp
    then show ?thesis using True by (simp add: as_strings_def)
  next
    case False
    have "rest = [] \<or> last rest \<noteq> pad" using "3.prems" by (cases rest) auto
    from "3.IH"(2) [OF False this]
    have "plain_zip br (rest @ [pad]) = (as_strings (spec_digraphs br pad rest), None)"
      by simp
    then show ?thesis using False by (auto simp: as_strings_def)
  qed
qed

lemma spec_digraphs_letters:
  "d \<in> set (spec_digraphs br pad L) \<Longrightarrow>
     fst d \<in> set L \<and> snd d \<in> set L \<union> {br, pad}"
  by (induction br pad L rule: spec_digraphs.induct) (auto split: if_splits)

lemma polyb_all_ok:
  assumes init: "Playfair_init key breaker padding omitted = Inr P"
    and "\<And>d. d \<in> set ds \<Longrightarrow> fst d \<in> set (pf_alphabet P) \<and> snd d \<in> set (pf_alphabet P)"
  shows "\<exists>outs. collect (map (\<lambda>d. Playfair_polyb P d dec) (as_strings ds)) = Inr outs"
  using assms(2)
proof (induction ds)
  case Nil
  then show ?case by (simp add: as_strings_def)
next
  case (Cons d ds)
  from Cons.IH Cons.prems obtain outs where
    outs: "collect (map (\<lambda>d. Playfair_polyb P d dec) (as_strings ds)) = Inr outs"
    by auto
  from Playfair_polyb_ok [OF init, of "fst d" "snd d" dec] Cons.prems [of d] obtain u v where
    "Playfair_polyb P ([fst d], [snd d]) dec = Inr [u, v]" by auto
  with outs show ?case by (simp add: as_strings_def)
qed

text \<open>
  The pairing on the inputs where it works. For a constructed Playfair cipher and a
  plaintext whose letters (after the omitted-letter substitution, the removal of repeated
  breakers, lowercasing and the removal of characters outside the alphabet) do not end
  with the padding letter: the digraphs that \<open>__plain_pairs\<close> yields are those of the
  spec's description (pair up the letters; where both letters of a pair are identical,
  the breaker is inserted between them and pairing resumes from the second; an incomplete
  final digraph is completed with the padding letter), the generator ends without an
  exception, every digraph is translated, and \<open>encrypt\<close> returns the concatenation of
  the translations.
\<close>

lemma Playfair_plain_pairs_refines:
  assumes "Playfair_init key breaker padding omitted = Inr P"
  shows "(plain_body P text = [] \<or> last (plain_body P text) \<noteq> pf_padding P) \<longrightarrow>
     Playfair_plain_pairs P text
       = (as_strings (spec_digraphs (pf_breaker P) (pf_padding P) (plain_body P text)), None) \<and>
     (\<exists>outs. collect (map (\<lambda>d. Playfair_polyb P d False)
                 (as_strings (spec_digraphs (pf_breaker P) (pf_padding P) (plain_body P text))))
               = Inr outs \<and>
             Playfair_encrypt P text = Inr (concat outs))"
proof
  let ?L = "plain_body P text"
  let ?ds = "spec_digraphs (pf_breaker P) (pf_padding P) ?L"
  assume ok: "?L = [] \<or> last ?L \<noteq> pf_padding P"
  note pf = Playfair_init_Inr [OF assms]
  have pairs: "Playfair_plain_pairs P text = (as_strings ?ds, None)"
    unfolding Playfair_plain_pairs_def plain_letters_body [OF assms]
    using plain_zip_spec [OF ok, of "pf_breaker P"] by simp
  have L: "set ?L \<subseteq> set (pf_alphabet P)" by (auto simp: plain_body_def)
  have "fst d \<in> set (pf_alphabet P) \<and> snd d \<in> set (pf_alphabet P)" if "d \<in> set ?ds" for d
    using spec_digraphs_letters [OF that] L pf(4,5) by auto
  from polyb_all_ok [OF assms this, of ?ds False] obtain outs where
    outs: "collect (map (\<lambda>d. Playfair_polyb P d False) (as_strings ?ds)) = Inr outs"
    by blast
  have "Playfair_encrypt P text = Inr (concat outs)"
    by (simp add: Playfair_encrypt_def pairs join_polyb_def outs)
  with pairs outs show "Playfair_plain_pairs P text = (as_strings ?ds, None) \<and>
     (\<exists>outs. collect (map (\<lambda>d. Playfair_polyb P d False) (as_strings ?ds)) = Inr outs \<and>
             Playfair_encrypt P text = Inr (concat outs))"
    by blast
qed

lemma Playfair_balloon:
  "Playfair_init ''playfair example'' ''x'' ''z'' [(''j'', ''i'')] = Inr \<lparr>pf_omitted = [(''j'', ''i'')], pf_alphabet = ''abcdefghiklmnopqrstuvwxyz'', pf_breaker = CHR ''x'', pf_padding = CHR ''z'', pf_key = ''playfair example'', pf_polybius = \<lparr>pb_contents = ''playfirexmbcdghknoqstuvwz'', pb_side = 5\<rparr>\<rparr> \<and>
   plain_body \<lparr>pf_omitted = [(''j'', ''i'')], pf_alphabet = ''abcdefghiklmnopqrstuvwxyz'', pf_breaker = CHR ''x'', pf_padding = CHR ''z'', pf_key = ''playfair example'', pf_polybius = \<lparr>pb_contents = ''playfirexmbcdghknoqstuvwz'', pb_side = 5\<rparr>\<rparr> ''balloon'' = ''balloon'' \<and>
   Playfair_plain_pairs \<lparr>pf_omitted = [(''j'', ''i'')], pf_alphabet = ''abcdefghiklmnopqrstuvwxyz'', pf_breaker = CHR ''x'', pf_padding = CHR ''z'', pf_key = ''playfair example'', pf_polybius = \<lparr>pb_contents = ''playfirexmbcdghknoqstuvwz'', pb_side = 5\<rparr>\<rparr> ''balloon''
     = ([(''b'', ''a''), (''l'', ''x''), (''l'', ''o''), (''o'', ''n'')], None) \<and>
   spec_digraphs CHR ''x'' CHR ''z'' ''balloon''
     = [(CHR ''b'', CHR ''a''), (CHR ''l'', CHR ''x''), (CHR ''l'', CHR ''o''), (CHR ''o'', CHR ''n'')] \<and>
   Playfair_plain_pairs \<lparr>pf_omitted = [(''j'', ''i'')], pf_alphabet = ''abcdefghiklmnopqrstuvwxyz'', pf_breaker = CHR ''x'', pf_padding = CHR ''z'', pf_key = ''playfair example'', pf_polybius = \<lparr>pb_contents = ''playfirexmbcdghknoqstuvwz'', pb_side = 5\<rparr>\<rparr> ''abc''
     = ([(''a'', ''b''), (''c'', ''z'')], None)"
  by code_simp

text \<open>
  Claim C7 (the code fails it where the last letter is the padding letter). With the
  default breaker \<open>x\<close> and padding \<open>z\<close>, the plaintext \<open>"abz"\<close> has the letters
  \<open>a b z\<close>; the spec's pairing gives the digraphs \<open>ab\<close> and \<open>zz\<close>, the incomplete
  final digraph completed with the padding letter. The code appends the padding, finds
  the pair \<open>z z\<close> identical, yields \<open>z x\<close> and calls \<open>next\<close> on the exhausted iterator:
  the generator ends in an exception, and \<open>encrypt\<close> raises instead of returning a
  ciphertext. The same happens on the plaintext \<open>"z"\<close>.
\<close>

theorem Playfair_encrypt_final_padding_letter:
  "Playfair_init ''playfair example'' ''x'' ''z'' [(''j'', ''i'')] = Inr \<lparr>pf_omitted = [(''j'', ''i'')], pf_alphabet = ''abcdefghiklmnopqrstuvwxyz'', pf_breaker = CHR ''x'', pf_padding = CHR ''z'', pf_key = ''playfair example'', pf_polybius = \<lparr>pb_contents = ''playfirexmbcdghknoqstuvwz'', pb_side = 5\<rparr>\<rparr> \<and>
   plain_body \<lparr>pf_omitted = [(''j'', ''i'')], pf_alphabet = ''abcdefghiklmnopqrstuvwxyz'', pf_breaker = CHR ''x'', pf_padding = CHR ''z'', pf_key = ''playfair example'', pf_polybius = \<lparr>pb_contents = ''playfirexmbcdghknoqstuvwz'', pb_side = 5\<rparr>\<rparr> ''abz'' = ''abz'' \<and>
   spec_digraphs CHR ''x'' CHR ''z'' ''abz'' = [(CHR ''a'', CHR ''b''), (CHR ''z'', CHR ''z'')] \<and>
   Playfair_plain_pairs \<lparr>pf_omitted = [(''j'', ''i'')], pf_alphabet = ''abcdefghiklmnopqrstuvwxyz'', pf_breaker = CHR ''x'', pf_padding = CHR ''z'', pf_key = ''playfair example'', pf_polybius = \<lparr>pb_contents = ''playfirexmbcdghknoqstuvwz'', pb_side = 5\<rparr>\<rparr> ''abz'' = ([(''a'', ''b''), (''z'', ''x'')], Some RuntimeError) \<and>
   Playfair_encrypt \<lparr>pf_omitted = [(''j'', ''i'')], pf_alphabet = ''abcdefghiklmnopqrstuvwxyz'', pf_breaker = CHR ''x'', pf_padding = CHR ''z'', pf_key = ''playfair example'', pf_polybius = \<lparr>pb_contents = ''playfirexmbcdghknoqstuvwz'', pb_side = 5\<rparr>\<rparr> ''abz'' = Inl RuntimeError \<and>
   Playfair_plain_pairs \<lparr>pf_omitted = [(''j'', ''i'')], pf_alphabet = ''abcdefghiklmnopqrstuvwxyz'', pf_breaker = CHR ''x'', pf_padding = CHR ''z'', pf_key = ''playfair example'', pf_polybius = \<lparr>pb_contents = ''playfirexmbcdghknoqstuvwz'', pb_side = 5\<rparr>\<rparr> ''z'' = ([(''z'', ''x'')], Some RuntimeError) \<and>
   Playfair_encrypt \<lparr>pf_omitted = [(''j'', ''i'')], pf_alphabet = ''abcdefghiklmnopqrstuvwxyz'', pf_breaker = CHR ''x'', pf_padding = CHR ''z'', pf_key = ''playfair example'', pf_polybius = \<lparr>pb_contents = ''playfirexmbcdghknoqstuvwz'', pb_side = 5\<rparr>\<rparr> ''z'' = Inl RuntimeError"
  by code_simp

theorem Playfair_encrypt_final_padding_letter_witness:
  "Playfair_init ''playfair example'' ''x'' ''z'' [(''j'', ''i'')] = Inr \<lparr>pf_omitted = [(''j'', ''i'')], pf_alphabet = ''abcdefghiklmnopqrstuvwxyz'', pf_breaker = CHR ''x'', pf_padding = CHR ''z'', pf_key = ''playfair example'', pf_polybius = \<lparr>pb_contents = ''playfirexmbcdghknoqstuvwz'', pb_side = 5\<rparr>\<rparr> \<and>
   Playfair_encrypt \<lparr>pf_omitted = [(''j'', ''i'')], pf_alphabet = ''abcdefghiklmnopqrstuvwxyz'', pf_breaker = CHR ''x'', pf_padding = CHR ''z'', pf_key = ''playfair example'', pf_polybius = \<lparr>pb_contents = ''playfirexmbcdghknoqstuvwz'', pb_side = 5\<rparr>\<rparr> ''abz'' = Inl RuntimeError \<and>
   Playfair_encrypt \<lparr>pf_omitted = [(''j'', ''i'')], pf_alphabet = ''abcdefghiklmnopqrstuvwxyz'', pf_breaker = CHR ''x'', pf_padding = CHR ''z'', pf_key = ''playfair example'', pf_polybius = \<lparr>pb_contents = ''playfirexmbcdghknoqstuvwz'', pb_side = 5\<rparr>\<rparr> ''z'' = Inl RuntimeError"
  using Playfair_encrypt_final_padding_letter by blast


end
